theory Spec2Isabelle
  imports Complex_Main
begin

section \<open>The C++ type double: IEEE 754 binary64 values\<close>

text \<open>
  The source computes with \<^verbatim>\<open>double\<close>. Its values are modelled as IEEE 754 binary64
  data: \<open>Finite s m e\<close> stands for \<open>(-1)^s * m * 2^e\<close>, \<open>Infinity s\<close> for the infinity of
  sign \<open>s\<close> (\<open>True\<close> is negative), and \<open>NaN\<close> for every not-a-number (payloads and the
  sign of a NaN are not modelled). The arithmetic is the default one of the C++
  implementations this module is built for: round to nearest, ties to even, every
  operation rounded on its own (no fused multiply-add, no extended precision).
\<close>

datatype f64 = Finite bool int int | Infinity bool | NaN

text \<open>
  The values a binary64 datum can hold: a significand below \<open>2^53\<close>, an exponent between
  \<open>-1074\<close> and \<open>971\<close>, and a significand below \<open>2^52\<close> only at the least exponent
  (zero and the subnormal numbers).
\<close>

fun valid :: "f64 \<Rightarrow> bool" where
  "valid (Finite s m e) = (0 \<le> m \<and> m < 2 ^ 53 \<and> - 1074 \<le> e \<and> e \<le> 971 \<and> (m < 2 ^ 52 \<longrightarrow> e = - 1074))"
| "valid (Infinity s) = True"
| "valid NaN = True"

fun is_finite :: "f64 \<Rightarrow> bool" where
  "is_finite (Finite s m e) = True"
| "is_finite (Infinity s) = False"
| "is_finite NaN = False"

fun is_nan :: "f64 \<Rightarrow> bool" where
  "is_nan NaN = True"
| "is_nan (Finite s m e) = False"
| "is_nan (Infinity s) = False"

text \<open>The number of binary digits of a positive integer.\<close>

function bit_length :: "int \<Rightarrow> nat" where
  "bit_length n = (if n \<le> 0 then 0 else Suc (bit_length (n div 2)))"
  by pat_completeness auto
termination
  by (relation "measure nat") auto

declare bit_length.simps [simp del]

text \<open>A rounded significand and exponent; an exponent above the range overflows to infinity.\<close>

definition pack :: "bool \<Rightarrow> int \<Rightarrow> int \<Rightarrow> f64" where
  "pack s m e = (if 971 < e then Infinity s else Finite s m e)"

text \<open>
  \<open>round_rne s M E\<close> rounds the exact value \<open>(-1)^s * M * 2^E\<close> (\<open>M\<close> is not
  negative) to the nearest binary64
  value, ties to the even significand. The exponent of the result is the one that leaves
  53 digits, and not less than \<open>-1074\<close>; the digits shifted out decide the rounding.
\<close>

definition round_rne :: "bool \<Rightarrow> int \<Rightarrow> int \<Rightarrow> f64" where
  "round_rne s M E =
     (if M = 0 then Finite s 0 (- 1074)
      else
        let e = max (E + int (bit_length M) - 53) (- 1074) in
        if e \<le> E then pack s (M * 2 ^ nat (E - e)) e
        else
          let k = nat (e - E);
              q = M div 2 ^ k;
              r = M mod 2 ^ k;
              h = 2 ^ (k - 1);
              q' = (if h < r \<or> (r = h \<and> odd q) then q + 1 else q)
          in if q' = 2 ^ 53 then pack s (2 ^ 52) (e + 1) else pack s q' e)"

text \<open>The integer \<open>m\<close> with the sign bit \<open>s\<close> applied.\<close>

definition signed :: "bool \<Rightarrow> int \<Rightarrow> int" where
  "signed s m = (if s then - m else m)"

text \<open>The product \<^verbatim>\<open>x * y\<close> of two doubles.\<close>

fun fmul :: "f64 \<Rightarrow> f64 \<Rightarrow> f64" where
  "fmul NaN y = NaN"
| "fmul (Finite s m e) NaN = NaN"
| "fmul (Infinity s) NaN = NaN"
| "fmul (Infinity s) (Infinity t) = Infinity (s \<noteq> t)"
| "fmul (Infinity s) (Finite t n d) = (if n = 0 then NaN else Infinity (s \<noteq> t))"
| "fmul (Finite s m e) (Infinity t) = (if m = 0 then NaN else Infinity (s \<noteq> t))"
| "fmul (Finite s m e) (Finite t n d) = round_rne (s \<noteq> t) (m * n) (e + d)"

text \<open>
  The sum \<^verbatim>\<open>x + y\<close> of two doubles. An exact sum of zero is \<open>-0.0\<close> only when both
  operands are negative (then both are \<open>-0.0\<close>).
\<close>

fun fadd :: "f64 \<Rightarrow> f64 \<Rightarrow> f64" where
  "fadd NaN y = NaN"
| "fadd (Finite s m e) NaN = NaN"
| "fadd (Infinity s) NaN = NaN"
| "fadd (Infinity s) (Infinity t) = (if s = t then Infinity s else NaN)"
| "fadd (Infinity s) (Finite t n d) = Infinity s"
| "fadd (Finite s m e) (Infinity t) = Infinity t"
| "fadd (Finite s m e) (Finite t n d) =
     (let c = min e d;
          v = signed s (m * 2 ^ nat (e - c)) + signed t (n * 2 ^ nat (d - c))
      in if v = 0 then Finite (s \<and> t) 0 (- 1074)
         else round_rne (v < 0) \<bar>v\<bar> c)"

text \<open>
  The comparison \<^verbatim>\<open>x == y\<close> of two doubles: a NaN is equal to nothing, itself
  included, and the two zeros are equal.
\<close>

fun feq :: "f64 \<Rightarrow> f64 \<Rightarrow> bool" where
  "feq (Finite s m e) (Finite t n d) =
     (let c = min e d
      in signed s (m * 2 ^ nat (e - c)) = signed t (n * 2 ^ nat (d - c)))"
| "feq (Infinity s) (Infinity t) = (s = t)"
| "feq x y = False"

text \<open>The literal \<^verbatim>\<open>0.0\<close>, and the double that an integer literal such as \<^verbatim>\<open>32.0\<close> denotes.\<close>

definition zero_f64 :: f64 where
  "zero_f64 = Finite False 0 (- 1074)"

definition f64_of_int :: "int \<Rightarrow> f64" where
  "f64_of_int i = round_rne (i < 0) \<bar>i\<bar> 0"

section \<open>The arrays and the function dot_cpp\<close>

text \<open>
  A \<^verbatim>\<open>py::array_t<double>\<close> is a handle to an array object owned by the caller. The
  memory is a store from handles to the elements of the array, in order; \<open>request\<close>
  gives the number of elements and the pointer to the first one. The arrays are the
  one-dimensional contiguous sequences of the specification; strides are not modelled.
\<close>

type_synonym addr = nat

type_synonym heap = "addr \<Rightarrow> f64 list"

record buffer_info =
  ptr :: addr
  size_buf :: int

definition request :: "heap \<Rightarrow> addr \<Rightarrow> buffer_info" where
  "request h a = \<lparr>ptr = a, size_buf = int (length (h a))\<rparr>"

text \<open>
  The read \<^verbatim>\<open>p[i]\<close>. C++ gives no meaning to a read outside the array: the model
  returns \<open>None\<close> there.
\<close>

definition load :: "heap \<Rightarrow> addr \<Rightarrow> int \<Rightarrow> f64 option" where
  "load h p i = (if 0 \<le> i \<and> i < int (length (h p)) then Some (h p ! nat i) else None)"

text \<open>
  The outcomes other than a result: the \<^verbatim>\<open>std::runtime_error\<close> thrown with its
  message, and a read outside an array.
\<close>

datatype error = runtime_error string | out_of_bounds

text \<open>
  The loop \<^verbatim>\<open>for (ssize_t i = 0; i < bufA.size; i++) s += ptrA[i] * ptrB[i];\<close> from
  the counter \<open>i\<close> and the accumulator \<open>s\<close>. The memory is passed through: the loop
  body has no assignment to it. The counter stays at most \<open>n\<close>, a value of
  \<^verbatim>\<open>ssize_t\<close>, so \<^verbatim>\<open>i++\<close> does not wrap.
\<close>

function dot_cpp_loop ::
  "heap \<Rightarrow> addr \<Rightarrow> addr \<Rightarrow> int \<Rightarrow> int \<Rightarrow> f64 \<Rightarrow> (error + f64) \<times> heap" where
  "dot_cpp_loop h ptrA ptrB n i s =
     (if i < n then
        (case load h ptrA i of
           None \<Rightarrow> (Inl out_of_bounds, h)
         | Some x \<Rightarrow>
             (case load h ptrB i of
                None \<Rightarrow> (Inl out_of_bounds, h)
              | Some y \<Rightarrow> dot_cpp_loop h ptrA ptrB n (i + 1) (fadd s (fmul x y))))
      else (Inr s, h))"
  by pat_completeness auto
termination
  by (relation "measure (\<lambda>(h, ptrA, ptrB, n, i, s). nat (n - i))") auto

declare dot_cpp_loop.simps [simp del]

definition dot_cpp :: "heap \<Rightarrow> addr \<Rightarrow> addr \<Rightarrow> (error + f64) \<times> heap" where
  "dot_cpp h a b =
     (let bufA = request h a; bufB = request h b in
      if size_buf bufA \<noteq> size_buf bufB then (Inl (runtime_error ''Array size mismatch''), h)
      else dot_cpp_loop h (ptr bufA) (ptr bufB) (size_buf bufA) 0 zero_f64)"

text \<open>
  The result as the specification words it: one pass from left to right over the
  elementwise products, adding each to an accumulator that starts at \<open>0.0\<close>.
\<close>

definition spec_dot :: "f64 list \<Rightarrow> f64 list \<Rightarrow> f64" where
  "spec_dot xs ys = foldl fadd zero_f64 (map2 fmul xs ys)"

text \<open>The error of the specification, as the source raises it.\<close>

definition LengthMismatch :: error where
  "LengthMismatch = runtime_error ''Array size mismatch''"

text \<open>
  The comparison \<^verbatim>\<open>r1 == r2\<close> of the outcomes of two calls, as a test writes it:
  it holds when both calls return and the doubles returned are equal.
\<close>

definition results_eq :: "error + f64 \<Rightarrow> error + f64 \<Rightarrow> bool" where
  "results_eq r1 r2 =
     (case r1 of Inl e1 \<Rightarrow> False
      | Inr x \<Rightarrow> (case r2 of Inl e2 \<Rightarrow> False | Inr y \<Rightarrow> feq x y))"

text \<open>An array of the length of \<open>xs\<close> that holds \<open>0.0\<close> everywhere.\<close>

definition zeros_like :: "f64 list \<Rightarrow> f64 list" where
  "zeros_like xs = map (\<lambda>x. zero_f64) xs"

text \<open>The elementwise sum \<^verbatim>\<open>b + c\<close> of two arrays of one length.\<close>

definition vec_add :: "f64 list \<Rightarrow> f64 list \<Rightarrow> f64 list" where
  "vec_add ys zs = map2 fadd ys zs"

text \<open>
  A caller's memory that holds the array \<open>xs\<close> under the handle 0 and the array \<open>ys\<close>
  under the handle 1, and the call \<^verbatim>\<open>dot(xs, ys)\<close> from there.
\<close>

definition heap_of :: "f64 list \<Rightarrow> f64 list \<Rightarrow> heap" where
  "heap_of xs ys = (\<lambda>p. if p = 0 then xs else if p = 1 then ys else [])"

definition dot :: "f64 list \<Rightarrow> f64 list \<Rightarrow> error + f64" where
  "dot xs ys = fst (dot_cpp (heap_of xs ys) 0 1)"

section \<open>Vocabulary of the linearity property\<close>

text \<open>The double \<open>2^1023\<close> and the negation \<^verbatim>\<open>-x\<close>.\<close>

definition huge_f64 :: f64 where
  "huge_f64 = Finite False (2 ^ 52) 971"

definition fneg :: "f64 \<Rightarrow> f64" where
  "fneg x = (case x of Finite s m e \<Rightarrow> Finite (\<not> s) m e | Infinity s \<Rightarrow> Infinity (\<not> s) | NaN \<Rightarrow> NaN)"

text \<open>
  The sum \<^verbatim>\<open>r1 + r2\<close> of the outcomes of two calls: a failure of either call is the
  outcome.
\<close>

definition results_add :: "error + f64 \<Rightarrow> error + f64 \<Rightarrow> error + f64" where
  "results_add r1 r2 =
     (case r1 of Inl e1 \<Rightarrow> Inl e1
      | Inr x \<Rightarrow> (case r2 of Inl e2 \<Rightarrow> Inl e2 | Inr y \<Rightarrow> Inr (fadd x y)))"

text \<open>The real number that a finite double stands for.\<close>

definition valof :: "f64 \<Rightarrow> real" where
  "valof x = (case x of Finite s m e \<Rightarrow> real_of_int (signed s m) * 2 powi e | Infinity s \<Rightarrow> 0 | NaN \<Rightarrow> 0)"

text \<open>
  \<open>holds_int x n\<close>: the double \<open>x\<close> is finite and its value is exactly the integer \<open>n\<close>
  (with integers only: \<open>m * 2^e = n\<close> is cleared of the negative power).
\<close>

fun holds_int :: "f64 \<Rightarrow> int \<Rightarrow> bool" where
  "holds_int (Finite s m e) n = (0 \<le> m \<and> signed s m * 2 ^ nat e = n * 2 ^ nat (- e))"
| "holds_int (Infinity s) n = False"
| "holds_int NaN n = False"

text \<open>The exact dot product of two integer arrays, and the one of their magnitudes.\<close>

definition int_dot :: "int list \<Rightarrow> int list \<Rightarrow> int" where
  "int_dot ps qs = sum_list (map2 (\<lambda>p q. p * q) ps qs)"

definition abs_dot :: "int list \<Rightarrow> int list \<Rightarrow> int" where
  "abs_dot ps qs = sum_list (map2 (\<lambda>p q. \<bar>p\<bar> * \<bar>q\<bar>) ps qs)"

text \<open>A caller's memory that holds four arrays under the handles 0 to 3.\<close>

definition heap4 :: "f64 list \<Rightarrow> f64 list \<Rightarrow> f64 list \<Rightarrow> f64 list \<Rightarrow> heap" where
  "heap4 xs ys zs ws = (\<lambda>p. if p = 0 then xs else if p = 1 then ys else if p = 2 then zs
                               else if p = 3 then ws else [])"

section \<open>Vocabulary of the error bound\<close>

text \<open>
  The relative error of one rounding, \<open>2^-53\<close>, and the absolute error of a rounding in
  the subnormal range, \<open>2^-1075\<close>; \<open>underflow_theta\<close> is the second in units of the first.
\<close>

definition unit_roundoff :: real where
  "unit_roundoff = 1 / 2 ^ 53"

definition underflow_unit :: real where
  "underflow_unit = 1 / 2 ^ 1075"

definition underflow_theta :: real where
  "underflow_theta = (2 ^ 54 + 1) * underflow_unit"

text \<open>A finite double with a significand that is not negative; every valid double is one.\<close>

fun well_formed :: "f64 \<Rightarrow> bool" where
  "well_formed (Finite s m e) = (0 \<le> m)"
| "well_formed (Infinity s) = True"
| "well_formed NaN = True"

text \<open>
  The exact dot product of the values of two arrays, the one of the magnitudes, and the
  weight \<open>sum |a_i| * (|b_i| + |c_i|)\<close> of three arrays.
\<close>

definition rdot :: "f64 list \<Rightarrow> f64 list \<Rightarrow> real" where
  "rdot xs ys = sum_list (map2 (\<lambda>x y. valof x * valof y) xs ys)"

definition adot :: "f64 list \<Rightarrow> f64 list \<Rightarrow> real" where
  "adot xs ys = sum_list (map2 (\<lambda>x y. \<bar>valof x * valof y\<bar>) xs ys)"

definition abs_weight :: "f64 list \<Rightarrow> f64 list \<Rightarrow> f64 list \<Rightarrow> real" where
  "abs_weight xs ys zs =
     sum_list (map (\<lambda>(x, y, z). \<bar>valof x\<bar> * (\<bar>valof y\<bar> + \<bar>valof z\<bar>)) (zip xs (zip ys zs)))"

text \<open>
  The tolerance of the linearity property for arrays of length \<open>n\<close> and weight \<open>W\<close>:
  about \<open>2 * (n + 2) * 2^-53 * W\<close>, and a term of the order of \<open>3 * n * 2^-1074\<close> for
  products that underflow.
\<close>

definition lin_tol :: "nat \<Rightarrow> real \<Rightarrow> real" where
  "lin_tol n W =
     2 * ((1 + unit_roundoff) ^ (n + 2) - 1) * W
     + ((1 + unit_roundoff) ^ n - 1) * ((3 + 2 * unit_roundoff) * underflow_theta)
     + underflow_unit"

text \<open>
  An example memory: \<open>a = [1 + 2^-52]\<close>, \<open>b = [1 + 2^-52]\<close>, \<open>c = [1.0]\<close> and
  \<open>b + c = [2.0]\<close> (the sum \<open>2 + 2^-52\<close>, rounded).
\<close>

definition linear_example :: heap where
  "linear_example =
     heap4 [Finite False (2 ^ 52 + 1) (- 52)] [Finite False (2 ^ 52 + 1) (- 52)]
       [Finite False (2 ^ 52) (- 52)] [Finite False (2 ^ 52) (- 51)]"

section \<open>What the loop computes\<close>

lemma load_in_range:
  "0 \<le> i \<Longrightarrow> i < int (length (h p)) \<Longrightarrow> load h p i = Some (h p ! nat i)"
  by (simp add: load_def)

lemma dot_cpp_loop_run:
  "length (h ptrA) = length (h ptrB) \<Longrightarrow> n = int (length (h ptrA)) \<Longrightarrow> 0 \<le> i \<Longrightarrow> i \<le> n \<Longrightarrow>
   dot_cpp_loop h ptrA ptrB n i s =
     (Inr (foldl fadd s (drop (nat i) (map2 fmul (h ptrA) (h ptrB)))), h)"
proof (induction h ptrA ptrB n i s rule: dot_cpp_loop.induct)
  case (1 h ptrA ptrB n i s)
  let ?zs = "map2 fmul (h ptrA) (h ptrB)"
  show ?case
  proof (cases "i < n")
    case False
    with "1.prems" have "nat i = length ?zs" by simp
    with False show ?thesis
      by (simp add: dot_cpp_loop.simps [of h ptrA ptrB n i s])
  next
    case True
    from True "1.prems" have la: "load h ptrA i = Some (h ptrA ! nat i)"
      by (simp add: load_in_range)
    from True "1.prems" have lb: "load h ptrB i = Some (h ptrB ! nat i)"
      by (simp add: load_in_range)
    from True "1.prems" have len: "nat i < length ?zs" by simp
    have step: "dot_cpp_loop h ptrA ptrB n i s =
        dot_cpp_loop h ptrA ptrB n (i + 1) (fadd s (fmul (h ptrA ! nat i) (h ptrB ! nat i)))"
      using True la lb by (simp add: dot_cpp_loop.simps [of h ptrA ptrB n i s])
    have ih: "dot_cpp_loop h ptrA ptrB n (i + 1) (fadd s (fmul (h ptrA ! nat i) (h ptrB ! nat i))) =
        (Inr (foldl fadd (fadd s (fmul (h ptrA ! nat i) (h ptrB ! nat i)))
               (drop (nat (i + 1)) ?zs)), h)"
      using "1.IH" [OF True la lb] True "1.prems" by simp
    have nth: "?zs ! nat i = fmul (h ptrA ! nat i) (h ptrB ! nat i)"
      using len by simp
    have suc: "nat (i + 1) = Suc (nat i)"
      using "1.prems" by simp
    have "drop (nat i) ?zs = ?zs ! nat i # drop (Suc (nat i)) ?zs"
      using len by (rule Cons_nth_drop_Suc [symmetric])
    with step ih nth suc show ?thesis by simp
  qed
qed

lemma dot_cpp_equal_length:
  "length (h a) = length (h b) \<Longrightarrow> dot_cpp h a b = (Inr (spec_dot (h a) (h b)), h)"
  using dot_cpp_loop_run [of h a b "int (length (h a))" 0 zero_f64]
  by (simp add: dot_cpp_def request_def spec_dot_def)

lemma dot_cpp_different_length:
  "length (h a) \<noteq> length (h b) \<Longrightarrow> dot_cpp h a b = (Inl LengthMismatch, h)"
  by (simp add: dot_cpp_def request_def LengthMismatch_def)

lemma dot_cpp_loop_heap: "snd (dot_cpp_loop h ptrA ptrB n i s) = h"
proof (induction h ptrA ptrB n i s rule: dot_cpp_loop.induct)
  case (1 h ptrA ptrB n i s)
  then show ?case
    by (simp add: dot_cpp_loop.simps [of h ptrA ptrB n i s] split: option.splits)
qed

text \<open>The sum of the specification, unfolded: it starts at \<open>0.0\<close> and adds the products in order.\<close>

lemma spec_dot_Nil: "spec_dot [] [] = zero_f64"
  by (simp add: spec_dot_def)

lemma spec_dot_snoc:
  "length xs = length ys \<Longrightarrow>
   spec_dot (xs @ [x]) (ys @ [y]) = fadd (spec_dot xs ys) (fmul x y)"
  by (simp add: spec_dot_def)

text \<open>Without the check of the sizes the loop would read outside the shorter array.\<close>

lemma dot_cpp_loop_reads_outside:
  "fst (dot_cpp_loop (heap_of [zero_f64, zero_f64] [zero_f64]) 0 1 2 0 zero_f64) = Inl out_of_bounds"
  by code_simp

lemma heap_of_simps [simp]:
  "heap_of xs ys 0 = xs" "heap_of xs ys (Suc 0) = ys"
  by (simp_all add: heap_of_def)

section \<open>Facts of the arithmetic\<close>

lemma fmul_commute: "fmul x y = fmul y x"
proof (cases x)
  case (Finite s m e)
  then show ?thesis
  proof (cases y)
    case (Finite t n d)
    have "(s \<noteq> t) = (t \<noteq> s)" by auto
    with \<open>x = Finite s m e\<close> Finite show ?thesis
      by (simp add: mult.commute add.commute)
  qed auto
next
  case (Infinity s)
  then show ?thesis by (cases y) auto
next
  case NaN
  then show ?thesis by (cases y) auto
qed

lemma map2_fmul_commute: "map2 fmul xs ys = map2 fmul ys xs"
proof (induction xs arbitrary: ys)
  case Nil
  then show ?case by simp
next
  case (Cons x xs)
  then show ?case by (cases ys) (simp_all add: fmul_commute)
qed

lemma spec_dot_commute: "spec_dot xs ys = spec_dot ys xs"
  by (simp add: spec_dot_def map2_fmul_commute [of xs ys])

lemma feq_same: "\<not> is_nan v \<Longrightarrow> feq v v"
  by (cases v) simp_all

lemma feq_nan: "is_nan v \<Longrightarrow> \<not> feq v w"
  by (cases v) simp_all

lemma fmul_finite_zero: "fmul (Finite s m e) zero_f64 = Finite s 0 (- 1074)"
  by (simp add: zero_f64_def round_rne_def)

lemma fadd_zero_zero: "fadd zero_f64 (Finite s 0 (- 1074)) = zero_f64"
  by (simp add: zero_f64_def signed_def)

lemma foldl_fadd_zeros:
  "\<forall>x\<in>set xs. is_finite x \<Longrightarrow>
   foldl fadd zero_f64 (map2 fmul xs (zeros_like xs)) = zero_f64"
proof (induction xs)
  case Nil
  then show ?case by (simp add: zeros_like_def)
next
  case (Cons x xs)
  from Cons.prems obtain s m e where x: "x = Finite s m e"
    by (cases x) auto
  from Cons have "foldl fadd zero_f64 (map2 fmul xs (zeros_like xs)) = zero_f64"
    by simp
  with x show ?case
    by (simp add: zeros_like_def fmul_finite_zero fadd_zero_zero)
qed

section \<open>Integers small enough are computed exactly\<close>

lemma bit_length_le: "M < 2 ^ j \<Longrightarrow> bit_length M \<le> j"
proof (induction j arbitrary: M)
  case 0
  then show ?case by (simp add: bit_length.simps [of M])
next
  case (Suc j)
  show ?case
  proof (cases "M \<le> 0")
    case True
    then show ?thesis by (simp add: bit_length.simps [of M])
  next
    case False
    from Suc.prems have "M div 2 < 2 ^ j" by simp
    then have "bit_length (M div 2) \<le> j" by (rule Suc.IH)
    with False show ?thesis by (simp add: bit_length.simps [of M])
  qed
qed

lemma powi_nonneg: "0 \<le> e \<Longrightarrow> (2::real) powi e = 2 ^ nat e"
  by (simp add: power_int_def)

lemma powi_neg: "e \<le> 0 \<Longrightarrow> (2::real) powi e = 1 / 2 ^ nat (- e)"
  by (simp add: power_int_def field_simps)

lemma powi_add: "(2::real) powi (a + b) = 2 powi a * 2 powi b"
  by (simp add: power_int_add)

lemma holds_int_valof:
  "holds_int x n \<longleftrightarrow> (\<exists>s m e. x = Finite s m e \<and> 0 \<le> m \<and> valof x = real_of_int n)"
proof (cases x)
  case (Finite s m e)
  have "(signed s m * 2 ^ nat e = n * 2 ^ nat (- e)) \<longleftrightarrow>
        (real_of_int (signed s m) * 2 powi e = real_of_int n)"
  proof (cases "0 \<le> e")
    case True
    then have "real_of_int (signed s m) * 2 powi e = real_of_int (signed s m * 2 ^ nat e)"
      by (simp add: powi_nonneg)
    moreover from True have "n * 2 ^ nat (- e) = n" by simp
    ultimately show ?thesis by (metis of_int_eq_iff)
  next
    case False
    then have p: "(2::real) powi e = 1 / 2 ^ nat (- e)" by (simp add: powi_neg)
    from False have "signed s m * 2 ^ nat e = signed s m" by simp
    moreover have "(real_of_int (signed s m) * 2 powi e = real_of_int n) \<longleftrightarrow>
        (real_of_int (signed s m) = real_of_int (n * 2 ^ nat (- e)))"
      by (simp add: p field_simps)
    ultimately show ?thesis by (metis of_int_eq_iff)
  qed
  with Finite show ?thesis by (simp add: valof_def)
qed (simp_all)

lemma round_rne_exact:
  assumes M: "0 < M" and val: "real_of_int M * 2 powi E = real_of_int N" and N: "N < 2 ^ 53"
  shows "\<exists>m e. round_rne s M E = Finite s m e \<and> 0 \<le> m \<and>
           real_of_int m * 2 powi e = real_of_int N"
proof -
  define e where "e = max (E + int (bit_length M) - 53) (- 1074)"
  have bl: "E + int (bit_length M) \<le> 53"
  proof -
    have pos: "(0::real) < 2 powi E" by simp
    have "real_of_int M * 2 powi E < 2 ^ 53"
      using N val by (metis of_int_less_iff of_int_numeral of_int_power)
    then have "real_of_int M * 2 powi E < 2 powi (53 - E) * 2 powi E"
      by (simp add: power_int_add [symmetric])
    with pos have lt: "real_of_int M < 2 powi (53 - E)"
      by (simp only: mult_less_cancel_right_pos)
    show ?thesis
    proof (cases "0 \<le> 53 - E")
      case True
      with lt have "real_of_int M < 2 ^ nat (53 - E)"
        by (simp add: powi_nonneg)
      then have "M < 2 ^ nat (53 - E)"
        by (metis of_int_less_iff of_int_numeral of_int_power)
      then have "bit_length M \<le> nat (53 - E)"
        by (rule bit_length_le)
      with True show ?thesis by linarith
    next
      case False
      then have "(2::real) powi (53 - E) \<le> 2 powi 0"
        by (intro power_int_increasing) simp_all
      with lt have "real_of_int M < 1" by simp
      with M show ?thesis by simp
    qed
  qed
  then have e0: "e \<le> 0" by (simp add: e_def)
  show ?thesis
  proof (cases "e \<le> E")
    case True
    have r: "round_rne s M E = Finite s (M * 2 ^ nat (E - e)) e"
      using M True e0 by (simp add: round_rne_def e_def [symmetric] Let_def pack_def)
    have "real_of_int (M * 2 ^ nat (E - e)) * 2 powi e = real_of_int M * (2 powi (E - e) * 2 powi e)"
      using True by (simp add: powi_nonneg)
    also have "\<dots> = real_of_int M * 2 powi E"
      by (simp add: power_int_add [symmetric])
    finally have "real_of_int (M * 2 ^ nat (E - e)) * 2 powi e = real_of_int N"
      using val by simp
    with r M show ?thesis by simp
  next
    case False
    define k where "k = nat (e - E)"
    from False e0 have En: "E < 0" and k1: "1 \<le> k" and kE: "nat (- E) = nat (- e) + k"
      by (simp_all add: k_def)
    have "real_of_int M = real_of_int N * 2 ^ nat (- E)"
      using val En by (simp add: powi_neg field_simps)
    then have "M = N * 2 ^ nat (- E)"
      by (metis of_int_eq_iff of_int_mult of_int_numeral of_int_power)
    then have Mk: "M = (N * 2 ^ nat (- e)) * 2 ^ k"
      by (simp add: kE power_add)
    define q where "q = N * 2 ^ nat (- e)"
    from Mk have dv: "M div 2 ^ k = q" and md: "M mod 2 ^ k = 0"
      by (simp_all add: q_def)
    have h: "(0::int) < 2 ^ (k - 1)" by simp
    have qpos: "0 \<le> q"
      using M Mk by (simp add: q_def zero_less_mult_iff)
    have qval: "real_of_int q * 2 powi e = real_of_int N"
      using e0 by (simp add: q_def powi_neg)
    have r: "round_rne s M E =
        (if q = 2 ^ 53 then pack s (2 ^ 52) (e + 1) else pack s q e)"
      using M False h
      by (simp add: round_rne_def e_def [symmetric] Let_def k_def [symmetric] dv md)
    show ?thesis
    proof (cases "q = 2 ^ 53")
      case True
      have "(2::real) ^ 52 * 2 powi (e + 1) = 2 ^ 53 * 2 powi e"
        by (simp add: power_int_add)
      with True qval have "(2::real) ^ 52 * 2 powi (e + 1) = real_of_int N"
        by simp
      with r True e0 show ?thesis by (simp add: pack_def)
    next
      case False
      with r e0 qpos qval show ?thesis by (simp add: pack_def)
    qed
  qed
qed

lemma powi_not_neg: "\<not> (2::real) powi e < 0"
  by (simp add: not_less)

lemma signed_real: "real_of_int (signed s m) = (if s then - real_of_int m else real_of_int m)"
  by (simp add: signed_def)

lemma signed_mult: "signed s (m * k) = signed s m * k"
  by (simp add: signed_def)

lemma valof_Finite: "valof (Finite s m e) = real_of_int (signed s m) * 2 powi e"
  by (simp add: valof_def)

lemma holds_intI:
  "0 \<le> m \<Longrightarrow> real_of_int (signed s m) * 2 powi e = real_of_int n \<Longrightarrow> holds_int (Finite s m e) n"
  by (simp add: holds_int_valof valof_Finite)

lemma holds_intE:
  assumes "holds_int x n"
  obtains s m e where "x = Finite s m e" "0 \<le> m" "real_of_int (signed s m) * 2 powi e = real_of_int n"
  using assms by (auto simp add: holds_int_valof valof_Finite)

lemma scaled_value:
  "c \<le> e \<Longrightarrow> real_of_int (signed s (m * 2 ^ nat (e - c))) * 2 powi c = real_of_int (signed s m) * 2 powi e"
proof -
  assume "c \<le> e"
  then have "(2::real) ^ nat (e - c) * 2 powi c = 2 powi e"
    by (simp add: powi_nonneg [symmetric] power_int_add [symmetric])
  then show ?thesis
    by (simp add: signed_mult mult.assoc)
qed

lemma round_rne_holds_int:
  assumes M: "0 < M" and val: "real_of_int M * 2 powi E = \<bar>real_of_int n\<bar>"
    and n: "\<bar>n\<bar> < 2 ^ 53" and s: "s \<longleftrightarrow> n < 0"
  shows "holds_int (round_rne s M E) n"
proof -
  from val have "real_of_int M * 2 powi E = real_of_int \<bar>n\<bar>" by simp
  from round_rne_exact [OF M this n, of s] obtain m e where
    r: "round_rne s M E = Finite s m e" and m: "0 \<le> m"
    and v: "real_of_int m * 2 powi e = real_of_int \<bar>n\<bar>"
    by blast
  have "real_of_int (signed s m) * 2 powi e = real_of_int n"
  proof (cases s)
    case True
    with s have "real_of_int \<bar>n\<bar> = - real_of_int n" by simp
    with v True show ?thesis by (simp add: signed_real)
  next
    case False
    with s have "real_of_int \<bar>n\<bar> = real_of_int n" by simp
    with v False show ?thesis by (simp add: signed_real)
  qed
  from holds_intI [OF m this] r show ?thesis by simp
qed

lemma holds_int_zero: "holds_int (Finite s 0 e) 0"
  by (simp add: signed_def)

lemma fmul_holds_int:
  assumes x: "holds_int x p" and y: "holds_int y q" and b: "\<bar>p * q\<bar> < 2 ^ 53"
  shows "holds_int (fmul x y) (p * q)"
proof -
  from x obtain s m e where X: "x = Finite s m e" and m: "0 \<le> m"
    and vx: "real_of_int (signed s m) * 2 powi e = real_of_int p"
    by (rule holds_intE)
  from y obtain t n d where Y: "y = Finite t n d" and n: "0 \<le> n"
    and vy: "real_of_int (signed t n) * 2 powi d = real_of_int q"
    by (rule holds_intE)
  have f: "fmul x y = round_rne (s \<noteq> t) (m * n) (e + d)"
    by (simp add: X Y)
  show ?thesis
  proof (cases "m * n = 0")
    case True
    then have "m = 0 \<or> n = 0" by simp
    then have "real_of_int p = 0 \<or> real_of_int q = 0"
      using vx [symmetric] vy [symmetric] by (auto simp add: signed_def)
    then have "p * q = 0" by simp
    with True f show ?thesis
      by (simp add: round_rne_def signed_def)
  next
    case False
    with m n have mp: "0 < m" and np: "0 < n" by auto
    then have M: "0 < m * n" by simp
    have ax: "real_of_int m * 2 powi e = \<bar>real_of_int p\<bar>"
      using vx [symmetric] m by (simp add: signed_real abs_mult split: if_splits)
    have ay: "real_of_int n * 2 powi d = \<bar>real_of_int q\<bar>"
      using vy [symmetric] n by (simp add: signed_real abs_mult split: if_splits)
    have "real_of_int (m * n) * 2 powi (e + d) =
        (real_of_int m * 2 powi e) * (real_of_int n * 2 powi d)"
      by (simp add: power_int_add)
    with ax ay have val: "real_of_int (m * n) * 2 powi (e + d) = \<bar>real_of_int (p * q)\<bar>"
      by (simp add: abs_mult)
    have px: "p < 0 \<longleftrightarrow> s"
    proof -
      have "real_of_int p < 0 \<longleftrightarrow> s"
        using mp by (simp add: vx [symmetric] signed_real mult_less_0_iff powi_not_neg)
      then show ?thesis by simp
    qed
    have qy: "q < 0 \<longleftrightarrow> t"
    proof -
      have "real_of_int q < 0 \<longleftrightarrow> t"
        using np by (simp add: vy [symmetric] signed_real mult_less_0_iff powi_not_neg)
      then show ?thesis by simp
    qed
    have pn: "p \<noteq> 0"
      using vx mp by (auto simp add: signed_real split: if_splits)
    have qn: "q \<noteq> 0"
      using vy np by (auto simp add: signed_real split: if_splits)
    have sg: "(s \<noteq> t) \<longleftrightarrow> p * q < 0"
      using px qy pn qn by (auto simp add: mult_less_0_iff)
    from round_rne_holds_int [OF M val b sg] f show ?thesis by simp
  qed
qed

lemma fadd_holds_int:
  assumes x: "holds_int x p" and y: "holds_int y q" and b: "\<bar>p + q\<bar> < 2 ^ 53"
  shows "holds_int (fadd x y) (p + q)"
proof -
  from x obtain s m e where X: "x = Finite s m e" and m: "0 \<le> m"
    and vx: "real_of_int (signed s m) * 2 powi e = real_of_int p"
    by (rule holds_intE)
  from y obtain t n d where Y: "y = Finite t n d" and n: "0 \<le> n"
    and vy: "real_of_int (signed t n) * 2 powi d = real_of_int q"
    by (rule holds_intE)
  define c where "c = min e d"
  define v where "v = signed s (m * 2 ^ nat (e - c)) + signed t (n * 2 ^ nat (d - c))"
  have f: "fadd x y = (if v = 0 then Finite (s \<and> t) 0 (- 1074) else round_rne (v < 0) \<bar>v\<bar> c)"
    by (simp add: X Y Let_def c_def v_def)
  have vv: "real_of_int v * 2 powi c = real_of_int (p + q)"
    using scaled_value [of c e s m] scaled_value [of c d t n] vx vy
    by (simp add: v_def c_def distrib_right)
  have pos: "(0::real) < 2 powi c" by simp
  show ?thesis
  proof (cases "v = 0")
    case True
    with vv have "p + q = 0" by simp
    with True f show ?thesis by (simp add: signed_def)
  next
    case False
    then have M: "0 < \<bar>v\<bar>" by simp
    have val: "real_of_int \<bar>v\<bar> * 2 powi c = \<bar>real_of_int (p + q)\<bar>"
      using vv [symmetric] by (simp add: abs_mult)
    have sg: "v < 0 \<longleftrightarrow> p + q < 0"
    proof -
      have "real_of_int (p + q) < 0 \<longleftrightarrow> real_of_int v < 0"
        using pos powi_not_neg [of c] by (simp only: vv [symmetric] mult_less_0_iff) auto
      then show ?thesis by (simp only: of_int_less_0_iff)
    qed
    from round_rne_holds_int [OF M val b sg] False f show ?thesis by simp
  qed
qed

lemma holds_int_feq:
  assumes x: "holds_int x n" and y: "holds_int y n"
  shows "feq x y"
proof -
  from x obtain s m e where X: "x = Finite s m e"
    and vx: "real_of_int (signed s m) * 2 powi e = real_of_int n"
    by (rule holds_intE)
  from y obtain t k d where Y: "y = Finite t k d"
    and vy: "real_of_int (signed t k) * 2 powi d = real_of_int n"
    by (rule holds_intE)
  define c where "c = min e d"
  have "real_of_int (signed s (m * 2 ^ nat (e - c))) * 2 powi c =
        real_of_int (signed t (k * 2 ^ nat (d - c))) * 2 powi c"
    using scaled_value [of c e s m] scaled_value [of c d t k] vx vy
    by (simp add: c_def)
  then have "real_of_int (signed s (m * 2 ^ nat (e - c))) = real_of_int (signed t (k * 2 ^ nat (d - c)))"
    by simp
  then have "signed s (m * 2 ^ nat (e - c)) = signed t (k * 2 ^ nat (d - c))"
    by (simp only: of_int_eq_iff)
  then show ?thesis
    by (simp add: X Y Let_def c_def)
qed

lemma abs_dot_nonneg: "0 \<le> abs_dot ps qs"
  unfolding abs_dot_def by (rule sum_list_nonneg) auto

lemma int_dot_Cons: "int_dot (p # ps) (q # qs) = p * q + int_dot ps qs"
  by (simp add: int_dot_def)

lemma abs_dot_Cons: "abs_dot (p # ps) (q # qs) = \<bar>p\<bar> * \<bar>q\<bar> + abs_dot ps qs"
  by (simp add: abs_dot_def)

lemma int_dot_le_abs_dot: "\<bar>int_dot ps qs\<bar> \<le> abs_dot ps qs"
proof (induction ps arbitrary: qs)
  case Nil
  then show ?case by (simp add: int_dot_def abs_dot_def)
next
  case (Cons p ps)
  show ?case
  proof (cases qs)
    case Nil
    then show ?thesis by (simp add: int_dot_def abs_dot_def)
  next
    case (Cons q qs')
    have "\<bar>p * q + int_dot ps qs'\<bar> \<le> \<bar>p * q\<bar> + \<bar>int_dot ps qs'\<bar>"
      by (rule abs_triangle_ineq)
    also have "\<dots> \<le> \<bar>p\<bar> * \<bar>q\<bar> + abs_dot ps qs'"
      using Cons.IH [of qs'] by (simp add: abs_mult)
    finally show ?thesis
      by (simp add: Cons int_dot_Cons abs_dot_Cons)
  qed
qed

lemma foldl_holds_int:
  "list_all2 holds_int xs ps \<Longrightarrow> list_all2 holds_int ys qs \<Longrightarrow> length ps = length qs \<Longrightarrow>
   holds_int s a \<Longrightarrow> \<bar>a\<bar> + abs_dot ps qs < 2 ^ 53 \<Longrightarrow>
   holds_int (foldl fadd s (map2 fmul xs ys)) (a + int_dot ps qs)"
proof (induction xs arbitrary: ps ys qs s a)
  case Nil
  then show ?case by (simp add: int_dot_def)
next
  case (Cons x xs)
  from Cons.prems(1) obtain p ps' where ps: "ps = p # ps'" and xp: "holds_int x p"
    and xs: "list_all2 holds_int xs ps'"
    by (auto simp add: list_all2_Cons1)
  from Cons.prems(3) ps obtain q qs' where qs: "qs = q # qs'" and len: "length ps' = length qs'"
    by (cases qs) auto
  from Cons.prems(2) qs obtain y ys' where ys: "ys = y # ys'" and yq: "holds_int y q"
    and ys': "list_all2 holds_int ys' qs'"
    by (auto simp add: list_all2_Cons2)
  from Cons.prems(5) have bound: "\<bar>a\<bar> + (\<bar>p\<bar> * \<bar>q\<bar> + abs_dot ps' qs') < 2 ^ 53"
    by (simp add: ps qs abs_dot_Cons)
  have nn: "0 \<le> abs_dot ps' qs'" by (rule abs_dot_nonneg)
  from bound nn have "\<bar>p * q\<bar> < 2 ^ 53"
    by (simp add: abs_mult)
  with xp yq have m: "holds_int (fmul x y) (p * q)"
    by (rule fmul_holds_int)
  have "\<bar>a + p * q\<bar> \<le> \<bar>a\<bar> + \<bar>p\<bar> * \<bar>q\<bar>"
    using abs_triangle_ineq [of a "p * q"] by (simp add: abs_mult)
  with bound nn have b2: "\<bar>a + p * q\<bar> < 2 ^ 53" and b3: "\<bar>a + p * q\<bar> + abs_dot ps' qs' < 2 ^ 53"
    by simp_all
  from Cons.prems(4) m b2 have s': "holds_int (fadd s (fmul x y)) (a + p * q)"
    by (rule fadd_holds_int)
  from Cons.IH [OF xs ys' len s' b3] show ?case
    by (simp add: ys ps qs int_dot_Cons add.assoc)
qed

lemma spec_dot_holds_int:
  assumes "list_all2 holds_int xs ps" "list_all2 holds_int ys qs" "length ps = length qs"
    and "abs_dot ps qs < 2 ^ 53"
  shows "holds_int (spec_dot xs ys) (int_dot ps qs)"
proof -
  have z: "holds_int zero_f64 0"
    by (simp add: zero_f64_def signed_def)
  from assms(4) have "\<bar>0::int\<bar> + abs_dot ps qs < 2 ^ 53" by simp
  from foldl_holds_int [OF assms(1) assms(2) assms(3) z this] show ?thesis
    by (simp add: spec_dot_def)
qed

lemma vec_add_holds_int:
  "list_all2 holds_int ys qs \<Longrightarrow> list_all2 holds_int zs rs \<Longrightarrow>
   list_all2 (\<lambda>q r. \<bar>q + r\<bar> < 2 ^ 53) qs rs \<Longrightarrow>
   list_all2 holds_int (vec_add ys zs) (map2 (\<lambda>q r. q + r) qs rs)"
proof (induction ys arbitrary: qs zs rs)
  case Nil
  then show ?case by (simp add: vec_add_def)
next
  case (Cons y ys)
  from Cons.prems(1) obtain q qs' where qs: "qs = q # qs'" and yq: "holds_int y q"
    and ys: "list_all2 holds_int ys qs'"
    by (auto simp add: list_all2_Cons1)
  from Cons.prems(3) qs obtain r rs' where rs: "rs = r # rs'" and b: "\<bar>q + r\<bar> < 2 ^ 53"
    and bs: "list_all2 (\<lambda>q r. \<bar>q + r\<bar> < 2 ^ 53) qs' rs'"
    by (auto simp add: list_all2_Cons1)
  from Cons.prems(2) rs obtain z zs' where zs: "zs = z # zs'" and zr: "holds_int z r"
    and zs': "list_all2 holds_int zs' rs'"
    by (auto simp add: list_all2_Cons2)
  from yq zr b have "holds_int (fadd y z) (q + r)"
    by (rule fadd_holds_int)
  moreover from Cons.IH [OF ys zs' bs]
  have "list_all2 holds_int (vec_add ys zs') (map2 (\<lambda>q r. q + r) qs' rs')" .
  ultimately show ?case
    by (simp add: qs rs zs vec_add_def)
qed

lemma int_dot_add:
  "length ps = length qs \<Longrightarrow> length qs = length rs \<Longrightarrow>
   int_dot ps (map2 (\<lambda>q r. q + r) qs rs) = int_dot ps qs + int_dot ps rs"
proof (induction ps qs rs rule: list_induct3)
  case Nil
  then show ?case by (simp add: int_dot_def)
next
  case (Cons p ps q qs r rs)
  then show ?case by (simp add: int_dot_Cons algebra_simps)
qed

lemma abs_dot_add:
  "length ps = length qs \<Longrightarrow> length qs = length rs \<Longrightarrow>
   abs_dot ps (map2 (\<lambda>q r. \<bar>q\<bar> + \<bar>r\<bar>) qs rs) = abs_dot ps qs + abs_dot ps rs"
proof (induction ps qs rs rule: list_induct3)
  case Nil
  then show ?case by (simp add: abs_dot_def)
next
  case (Cons p ps q qs r rs)
  then show ?case by (simp add: abs_dot_Cons algebra_simps)
qed

lemma abs_dot_sum_le:
  "length ps = length qs \<Longrightarrow> length qs = length rs \<Longrightarrow>
   abs_dot ps (map2 (\<lambda>q r. q + r) qs rs) \<le> abs_dot ps qs + abs_dot ps rs"
proof (induction ps qs rs rule: list_induct3)
  case Nil
  then show ?case by (simp add: abs_dot_def)
next
  case (Cons p ps q qs r rs)
  have "\<bar>p\<bar> * \<bar>q + r\<bar> \<le> \<bar>p\<bar> * (\<bar>q\<bar> + \<bar>r\<bar>)"
    by (intro mult_left_mono abs_triangle_ineq) simp
  with Cons show ?case by (simp add: abs_dot_Cons algebra_simps)
qed

text \<open>
  When the arrays \<open>a\<close>, \<open>b\<close>, \<open>c\<close> of one length hold integers \<open>ps\<close>, \<open>qs\<close>, \<open>rs\<close> with
  every \<open>|q + r|\<close> below \<open>2^53\<close> and the sum of the \<open>|p| * (|q| + |r|)\<close> below \<open>2^53\<close>,
  nothing is rounded and the two sides of the linearity property are equal.
\<close>

lemma dot_cpp_linear_exact:
  assumes a: "list_all2 holds_int (h a) ps"
    and b: "list_all2 holds_int (h b) qs"
    and c: "list_all2 holds_int (h c) rs"
    and d: "h d = vec_add (h b) (h c)"
    and pq: "length ps = length qs"
    and qr: "length qs = length rs"
    and el: "list_all2 (\<lambda>q r. \<bar>q + r\<bar> < 2 ^ 53) qs rs"
    and w: "abs_dot ps (map2 (\<lambda>q r. \<bar>q\<bar> + \<bar>r\<bar>) qs rs) < 2 ^ 53"
  shows "results_eq (fst (dot_cpp h a d))
           (results_add (fst (dot_cpp h a b)) (fst (dot_cpp h a c)))"
proof -
  let ?sum = "map2 (\<lambda>q r. q + r) qs rs"
  from a b c pq qr have la: "length (h a) = length (h b)" and lc: "length (h a) = length (h c)"
    using list_all2_lengthD [OF a] list_all2_lengthD [OF b] list_all2_lengthD [OF c]
    by simp_all
  with d have ld: "length (h a) = length (h d)"
    by (simp add: vec_add_def)
  from w pq qr have ws: "abs_dot ps qs + abs_dot ps rs < 2 ^ 53"
    by (simp add: abs_dot_add)
  have nq: "0 \<le> abs_dot ps qs" and nr: "0 \<le> abs_dot ps rs"
    by (rule abs_dot_nonneg)+
  from ws nr have wq: "abs_dot ps qs < 2 ^ 53" by simp
  from ws nq have wr: "abs_dot ps rs < 2 ^ 53" by simp
  from abs_dot_sum_le [OF pq qr] ws have wd: "abs_dot ps ?sum < 2 ^ 53" by simp
  from b c el have ds: "list_all2 holds_int (h d) ?sum"
    by (simp add: d vec_add_holds_int)
  from pq qr have lsum: "length ps = length ?sum" by simp
  from a ds lsum wd have lhs: "holds_int (spec_dot (h a) (h d)) (int_dot ps ?sum)"
    by (rule spec_dot_holds_int)
  from a b pq wq have r1: "holds_int (spec_dot (h a) (h b)) (int_dot ps qs)"
    by (rule spec_dot_holds_int)
  from qr pq have pr: "length ps = length rs" by simp
  from a c pr wr have r2: "holds_int (spec_dot (h a) (h c)) (int_dot ps rs)"
    by (rule spec_dot_holds_int)
  have "\<bar>int_dot ps qs + int_dot ps rs\<bar> \<le> abs_dot ps qs + abs_dot ps rs"
    using int_dot_le_abs_dot [of ps qs] int_dot_le_abs_dot [of ps rs] by linarith
  with ws have "\<bar>int_dot ps qs + int_dot ps rs\<bar> < 2 ^ 53" by simp
  with r1 r2 have "holds_int (fadd (spec_dot (h a) (h b)) (spec_dot (h a) (h c)))
      (int_dot ps qs + int_dot ps rs)"
    by (rule fadd_holds_int)
  then have rhs: "holds_int (fadd (spec_dot (h a) (h b)) (spec_dot (h a) (h c))) (int_dot ps ?sum)"
    by (simp add: int_dot_add [OF pq qr])
  from lhs rhs have "feq (spec_dot (h a) (h d)) (fadd (spec_dot (h a) (h b)) (spec_dot (h a) (h c)))"
    by (rule holds_int_feq)
  moreover have "fst (dot_cpp h a d) = Inr (spec_dot (h a) (h d))"
    using ld by (simp add: dot_cpp_equal_length)
  moreover have "fst (dot_cpp h a b) = Inr (spec_dot (h a) (h b))"
    using la by (simp add: dot_cpp_equal_length)
  moreover have "fst (dot_cpp h a c) = Inr (spec_dot (h a) (h c))"
    using lc by (simp add: dot_cpp_equal_length)
  ultimately show ?thesis
    by (simp add: results_eq_def results_add_def)
qed

lemma dot_cpp_linear_exact_example:
  "list_all2 holds_int
     (heap4 [f64_of_int 2, f64_of_int (- 3)] [f64_of_int 4, f64_of_int (- 5)]
        [f64_of_int 6, f64_of_int 7] [f64_of_int 10, f64_of_int 2] 0) [2, - 3]
   \<and> heap4 [f64_of_int 2, f64_of_int (- 3)] [f64_of_int 4, f64_of_int (- 5)]
        [f64_of_int 6, f64_of_int 7] [f64_of_int 10, f64_of_int 2] 3 =
       vec_add [f64_of_int 4, f64_of_int (- 5)] [f64_of_int 6, f64_of_int 7]
   \<and> abs_dot [2, - 3] (map2 (\<lambda>q r. \<bar>q\<bar> + \<bar>r\<bar>) [4, - 5] [6, 7]) < 2 ^ 53
   \<and> results_eq
        (fst (dot_cpp (heap4 [f64_of_int 2, f64_of_int (- 3)] [f64_of_int 4, f64_of_int (- 5)]
                         [f64_of_int 6, f64_of_int 7] [f64_of_int 10, f64_of_int 2]) 0 3))
        (results_add
           (fst (dot_cpp (heap4 [f64_of_int 2, f64_of_int (- 3)] [f64_of_int 4, f64_of_int (- 5)]
                            [f64_of_int 6, f64_of_int 7] [f64_of_int 10, f64_of_int 2]) 0 1))
           (fst (dot_cpp (heap4 [f64_of_int 2, f64_of_int (- 3)] [f64_of_int 4, f64_of_int (- 5)]
                            [f64_of_int 6, f64_of_int 7] [f64_of_int 10, f64_of_int 2]) 0 2)))"
proof -
  let ?h = "heap4 [f64_of_int 2, f64_of_int (- 3)] [f64_of_int 4, f64_of_int (- 5)]
              [f64_of_int 6, f64_of_int 7] [f64_of_int 10, f64_of_int 2]"
  have a: "list_all2 holds_int (?h 0) [2, - 3]" by code_simp
  have b: "list_all2 holds_int (?h 1) [4, - 5]" by code_simp
  have c: "list_all2 holds_int (?h 2) [6, 7]" by code_simp
  have v: "vec_add [f64_of_int 4, f64_of_int (- 5)] [f64_of_int 6, f64_of_int 7] =
      [f64_of_int 10, f64_of_int 2]" by code_simp
  have d0: "?h 3 = vec_add [f64_of_int 4, f64_of_int (- 5)] [f64_of_int 6, f64_of_int 7]"
    by (simp add: v heap4_def)
  have d: "?h 3 = vec_add (?h 1) (?h 2)"
    by (simp add: v heap4_def)
  have pq: "length [2, - 3 :: int] = length [4, - 5 :: int]" by simp
  have qr: "length [4, - 5 :: int] = length [6, 7 :: int]" by simp
  have el: "list_all2 (\<lambda>q r. \<bar>q + r\<bar> < 2 ^ 53) [4, - 5 :: int] [6, 7]" by simp
  have w: "abs_dot [2, - 3] (map2 (\<lambda>q r. \<bar>q\<bar> + \<bar>r\<bar>) [4, - 5] [6, 7]) < 2 ^ 53"
    by (simp add: abs_dot_def)
  from a d0 w dot_cpp_linear_exact [OF a b c d pq qr el w] show ?thesis
    by blast
qed

section \<open>The error of rounded products and sums\<close>

lemma bit_length_lower: "0 < M \<Longrightarrow> 2 ^ (bit_length M - 1) \<le> M"
proof (induction M rule: bit_length.induct)
  case (1 n)
  show ?case
  proof (cases "n div 2 \<le> 0")
    case True
    with "1.prems" show ?thesis
      by (simp add: bit_length.simps [of n] bit_length.simps [of "n div 2"] bit_length.simps [of 0])
  next
    case False
    then have pos: "0 < n div 2" by simp
    with "1.IH" "1.prems" have ih: "2 ^ (bit_length (n div 2) - 1) \<le> n div 2" by simp
    from pos have "0 < bit_length (n div 2)"
      by (simp add: bit_length.simps [of "n div 2"])
    then have "(2::int) ^ bit_length (n div 2) = 2 * 2 ^ (bit_length (n div 2) - 1)"
      by (cases "bit_length (n div 2)") simp_all
    with ih have "(2::int) ^ bit_length (n div 2) \<le> 2 * (n div 2)" by simp
    also have "\<dots> \<le> n" by simp
    finally show ?thesis
      using "1.prems" by (simp add: bit_length.simps [of n])
  qed
qed

lemma bit_length_pos: "0 < M \<Longrightarrow> 0 < bit_length M"
  by (simp add: bit_length.simps [of M])

text \<open>The nearest integer quotient is within half a unit.\<close>

lemma nearest_quotient:
  fixes M :: int
  assumes k: "1 \<le> k" and M: "0 \<le> M"
  defines "q \<equiv> M div 2 ^ k" and "r \<equiv> M mod 2 ^ k" and "h \<equiv> 2 ^ (k - 1)"
  defines "q' \<equiv> (if h < r \<or> (r = h \<and> odd q) then q + 1 else q)"
  shows "\<bar>q' * 2 ^ k - M\<bar> \<le> h" and "0 \<le> q'"
proof -
  have hk: "(2::int) ^ k = 2 * h"
    using k unfolding h_def by (cases k) simp_all
  have Mqr: "M = q * 2 ^ k + r"
    unfolding q_def r_def by (rule div_mult_mod_eq [symmetric])
  have r0: "0 \<le> r" and r1: "r < 2 ^ k"
    unfolding r_def by simp_all
  have q0: "0 \<le> q"
    unfolding q_def using M by (simp add: pos_imp_zdiv_nonneg_iff)
  then show "0 \<le> q'" unfolding q'_def by simp
  show "\<bar>q' * 2 ^ k - M\<bar> \<le> h"
  proof (cases "h < r \<or> (r = h \<and> odd q)")
    case True
    then have "q' = q + 1" by (simp add: q'_def)
    then have "q' * 2 ^ k - M = 2 ^ k - r"
      using Mqr by (simp add: algebra_simps)
    moreover from True have "h \<le> r" by auto
    ultimately show ?thesis using r1 hk by simp
  next
    case False
    then have "q' = q" by (simp add: q'_def)
    then have "q' * 2 ^ k - M = - r"
      using Mqr by (simp add: algebra_simps)
    moreover from False have "r \<le> h" by auto
    ultimately show ?thesis using r0 by simp
  qed
qed

lemma powi_neg_numeral: "(2::real) powi (- numeral n) = 1 / 2 ^ numeral n"
  by (simp only: power_int_minus power_int_numeral inverse_eq_divide)

lemma pack_Finite: "pack s m e = Finite t n d \<Longrightarrow> t = s \<and> n = m \<and> d = e"
  by (simp add: pack_def split: if_splits)

lemma round_rne_unfold:
  assumes "e0 = max (E + int (bit_length M) - 53) (- 1074)"
    and "k = nat (e0 - E)"
    and "q' = (if 2 ^ (k - 1) < M mod 2 ^ k \<or> (M mod 2 ^ k = 2 ^ (k - 1) \<and> odd (M div 2 ^ k))
               then M div 2 ^ k + 1 else M div 2 ^ k)"
  shows "round_rne s M E =
     (if M = 0 then Finite s 0 (- 1074)
      else if e0 \<le> E then pack s (M * 2 ^ nat (E - e0)) e0
      else if q' = 2 ^ 53 then pack s (2 ^ 52) (e0 + 1) else pack s q' e0)"
  by (simp only: assms round_rne_def Let_def)

lemma round_rne_error:
  assumes M: "0 < M" and r: "round_rne s M E = Finite t m e"
  shows "t = s \<and> 0 \<le> m \<and>
    (\<bar>real_of_int m * 2 powi e - real_of_int M * 2 powi E\<bar>
        \<le> unit_roundoff * (real_of_int M * 2 powi E)
     \<or> E < - 1074 \<and>
       \<bar>real_of_int m * 2 powi e - real_of_int M * 2 powi E\<bar> \<le> underflow_unit)"
proof -
  define bl where "bl = bit_length M"
  define e0 where "e0 = max (E + int (bit_length M) - 53) (- 1074)"
  define k where "k = nat (e0 - E)"
  define q' where "q' = (if 2 ^ (k - 1) < M mod 2 ^ k \<or> (M mod 2 ^ k = 2 ^ (k - 1) \<and> odd (M div 2 ^ k))
                         then M div 2 ^ k + 1 else M div 2 ^ k)"
  note unf = round_rne_unfold [OF e0_def k_def q'_def, of s]
  have Mn: "M \<noteq> 0" using M by simp
  have xpos: "0 \<le> unit_roundoff * (real_of_int M * 2 powi E)"
    using M by (simp add: unit_roundoff_def)
  show ?thesis
  proof (cases "e0 \<le> E")
    case True
    from r True Mn have "pack s (M * 2 ^ nat (E - e0)) e0 = Finite t m e"
      by (simp only: unf if_True if_False)
    then have t: "t = s" and m: "m = M * 2 ^ nat (E - e0)" and e: "e = e0"
      by (auto dest: pack_Finite)
    have "real_of_int (M * 2 ^ nat (E - e0)) * 2 powi e0 = real_of_int M * (2 powi (E - e0) * 2 powi e0)"
      using True by (simp add: powi_nonneg)
    also have "\<dots> = real_of_int M * 2 powi E"
      by (simp add: power_int_add [symmetric])
    finally have "real_of_int m * 2 powi e = real_of_int M * 2 powi E"
      by (simp add: m e)
    then have "\<bar>real_of_int m * 2 powi e - real_of_int M * 2 powi E\<bar> = 0"
      by simp
    with xpos have "\<bar>real_of_int m * 2 powi e - real_of_int M * 2 powi E\<bar>
        \<le> unit_roundoff * (real_of_int M * 2 powi E)"
      by (simp only:)
    moreover from m M have "0 \<le> m" by simp
    ultimately show ?thesis using t by blast
  next
    case False
    from False have k1: "1 \<le> k" and e0k: "e0 = E + int k"
      by (simp_all add: k_def)
    from M have M0: "0 \<le> M" by simp
    have near: "\<bar>q' * 2 ^ k - M\<bar> \<le> 2 ^ (k - 1)" and q0: "0 \<le> q'"
      unfolding q'_def using nearest_quotient [OF k1 M0] by simp_all
    have rr: "(if q' = 2 ^ 53 then pack s (2 ^ 52) (e0 + 1) else pack s q' e0) = Finite t m e"
      using r False Mn by (simp only: unf if_True if_False)
    have tm: "t = s \<and> 0 \<le> m \<and> real_of_int m * 2 powi e = real_of_int q' * 2 powi e0"
    proof (cases "q' = 2 ^ 53")
      case True
      with rr have "t = s" "m = 2 ^ 52" "e = e0 + 1"
        by (auto dest: pack_Finite)
      moreover have "(2::real) ^ 52 * 2 powi (e0 + 1) = 2 ^ 53 * 2 powi e0"
        by (simp add: power_int_add)
      ultimately show ?thesis using True by simp
    next
      case False
      with rr have "t = s" "m = q'" "e = e0"
        by (auto dest: pack_Finite)
      with q0 show ?thesis by simp
    qed
    have p0: "(2::real) powi e0 = 2 ^ k * 2 powi E"
      by (simp add: e0k power_int_add)
    have "real_of_int q' * 2 powi e0 - real_of_int M * 2 powi E =
        real_of_int (q' * 2 ^ k - M) * 2 powi E"
      by (simp add: p0 algebra_simps)
    then have "\<bar>real_of_int q' * 2 powi e0 - real_of_int M * 2 powi E\<bar> =
        real_of_int \<bar>q' * 2 ^ k - M\<bar> * 2 powi E"
      by (simp add: abs_mult)
    also have "\<dots> \<le> real_of_int (2 ^ (k - 1)) * 2 powi E"
      using near by (intro mult_right_mono) (simp_all only: of_int_le_iff, simp)
    also have "\<dots> = 2 powi (e0 - 1)"
    proof -
      have "e0 - 1 = int (k - 1) + E" using k1 e0k by simp
      then have "(2::real) powi (e0 - 1) = 2 powi (int (k - 1) + E)"
        by (simp only:)
      also have "\<dots> = 2 powi (int (k - 1)) * 2 powi E"
        by (rule powi_add)
      finally show ?thesis by simp
    qed
    finally have err: "\<bar>real_of_int q' * 2 powi e0 - real_of_int M * 2 powi E\<bar> \<le> 2 powi (e0 - 1)" .
    show ?thesis
    proof (cases "E + int bl - 53 \<le> - 1074")
      case True
      then have e1: "e0 = - 1074" by (simp add: e0_def bl_def)
      with False have "E < - 1074" by simp
      moreover have "(2::real) powi (e0 - 1) = underflow_unit"
        by (simp only: e1 underflow_unit_def diff_conv_add_uminus minus_add_distrib [symmetric]
              numeral_plus_one [symmetric] add_neg_numeral_simps)
           (simp only: arith_simps one_plus_numeral powi_neg_numeral numeral_plus_one)
      ultimately show ?thesis using err tm by simp
    next
      case False
      then have e1: "e0 = E + int bl - 53" by (simp add: e0_def bl_def)
      have blp: "0 < bl" unfolding bl_def using M by (rule bit_length_pos)
      have low: "2 ^ (bl - 1) \<le> M" unfolding bl_def using M by (rule bit_length_lower)
      have "e0 - 1 = - 53 + (int (bl - 1) + E)" using blp e1 by simp
      then have "(2::real) powi (e0 - 1) = 2 powi (- 53 + (int (bl - 1) + E))"
        by (simp only:)
      also have "\<dots> = 2 powi (- 53) * (2 powi (int (bl - 1)) * 2 powi E)"
        by (simp only: powi_add)
      also have "\<dots> = unit_roundoff * (2 ^ (bl - 1) * 2 powi E)"
        by (simp only: unit_roundoff_def powi_neg_numeral power_int_of_nat times_divide_eq_left mult_1)
      also have "\<dots> \<le> unit_roundoff * (real_of_int M * 2 powi E)"
      proof -
        have "(2::real) ^ (bl - 1) \<le> real_of_int M"
          using low by (metis of_int_le_iff of_int_numeral of_int_power)
        then have "(2::real) ^ (bl - 1) * 2 powi E \<le> real_of_int M * 2 powi E"
          by (intro mult_right_mono) simp_all
        then show ?thesis
          by (intro mult_left_mono) (simp_all add: unit_roundoff_def)
      qed
      finally have "(2::real) powi (e0 - 1) \<le> unit_roundoff * (real_of_int M * 2 powi E)" .
      with err tm show ?thesis by simp
    qed
  qed
qed

lemma valid_well_formed: "valid x \<Longrightarrow> well_formed x"
  by (cases x) simp_all

lemma unit_roundoff_pos: "0 < unit_roundoff"
  by (simp add: unit_roundoff_def)

lemma underflow_unit_pos: "0 < underflow_unit"
  by (simp add: underflow_unit_def)

lemma is_finiteE:
  assumes "is_finite x"
  obtains s m e where "x = Finite s m e"
  using assms by (cases x) simp_all

lemma signed_abs: "\<bar>real_of_int (signed s m)\<bar> = \<bar>real_of_int m\<bar>"
  by (simp add: signed_def)

text \<open>The error of one rounding, on the value with its sign.\<close>

lemma round_rne_valof:
  assumes M: "0 < M" and fin: "is_finite (round_rne s M E)"
  shows "well_formed (round_rne s M E)"
    and "\<bar>valof (round_rne s M E) - real_of_int (signed s M) * 2 powi E\<bar>
           \<le> unit_roundoff * (real_of_int M * 2 powi E) + underflow_unit"
    and "- 1074 \<le> E \<Longrightarrow>
         \<bar>valof (round_rne s M E) - real_of_int (signed s M) * 2 powi E\<bar>
           \<le> unit_roundoff * (real_of_int M * 2 powi E)"
proof -
  from fin obtain t m e where r: "round_rne s M E = Finite t m e"
    by (rule is_finiteE)
  from round_rne_error [OF M r] have t: "t = s" and m: "0 \<le> m"
    and err: "\<bar>real_of_int m * 2 powi e - real_of_int M * 2 powi E\<bar>
                \<le> unit_roundoff * (real_of_int M * 2 powi E)
              \<or> E < - 1074 \<and>
                \<bar>real_of_int m * 2 powi e - real_of_int M * 2 powi E\<bar> \<le> underflow_unit"
    by simp_all
  have v: "valof (round_rne s M E) = real_of_int (signed s m) * 2 powi e"
    by (simp add: r t valof_Finite)
  have d: "\<bar>valof (round_rne s M E) - real_of_int (signed s M) * 2 powi E\<bar> =
      \<bar>real_of_int m * 2 powi e - real_of_int M * 2 powi E\<bar>"
    unfolding v by (cases s) (simp_all add: signed_real abs_minus_commute)
  from m show "well_formed (round_rne s M E)"
    by (simp add: r)
  have x0: "0 \<le> unit_roundoff * (real_of_int M * 2 powi E)"
    using M by (simp add: unit_roundoff_def)
  from err x0 underflow_unit_pos
  show "\<bar>valof (round_rne s M E) - real_of_int (signed s M) * 2 powi E\<bar>
           \<le> unit_roundoff * (real_of_int M * 2 powi E) + underflow_unit"
    unfolding d by linarith
  assume "- 1074 \<le> E"
  with err show "\<bar>valof (round_rne s M E) - real_of_int (signed s M) * 2 powi E\<bar>
           \<le> unit_roundoff * (real_of_int M * 2 powi E)"
    unfolding d by linarith
qed

lemma valof_zero: "valof (Finite s 0 e) = 0"
  by (simp add: valof_Finite signed_def)

lemma fmul_finite: "is_finite (fmul x y) \<Longrightarrow> is_finite x \<and> is_finite y"
  by (cases x; cases y) (simp_all split: if_splits)

lemma fadd_finite: "is_finite (fadd x y) \<Longrightarrow> is_finite x \<and> is_finite y"
  by (cases x; cases y) (simp_all split: if_splits)

lemma signed_signed: "signed s m * signed t n = signed (s \<noteq> t) (m * n)"
  by (simp add: signed_def)

lemma fmul_error:
  assumes wx: "well_formed x" and wy: "well_formed y" and fin: "is_finite (fmul x y)"
  shows "well_formed (fmul x y)"
    and "\<bar>valof (fmul x y) - valof x * valof y\<bar>
           \<le> unit_roundoff * \<bar>valof x * valof y\<bar> + underflow_unit"
proof -
  from fin fmul_finite [of x y] obtain s m e t n d
    where X: "x = Finite s m e" and Y: "y = Finite t n d"
    by (auto elim!: is_finiteE)
  from wx wy X Y have m: "0 \<le> m" and n: "0 \<le> n" by simp_all
  have f: "fmul x y = round_rne (s \<noteq> t) (m * n) (e + d)"
    by (simp add: X Y)
  have ss: "real_of_int (signed (s \<noteq> t) (m * n)) =
      real_of_int (signed s m) * real_of_int (signed t n)"
    by (simp add: signed_def)
  have prod: "valof x * valof y = real_of_int (signed (s \<noteq> t) (m * n)) * 2 powi (e + d)"
    by (simp only: X Y valof_Finite ss powi_add) simp
  have both: "well_formed (fmul x y) \<and>
      \<bar>valof (fmul x y) - valof x * valof y\<bar>
           \<le> unit_roundoff * \<bar>valof x * valof y\<bar> + underflow_unit"
  proof (cases "m * n = 0")
    case True
    then have z: "fmul x y = Finite (s \<noteq> t) 0 (- 1074)"
      by (simp add: f round_rne_def)
    from True have p0: "valof x * valof y = 0"
      by (simp only: prod) (simp add: signed_def)
    have "valof (fmul x y) = 0"
      by (simp only: z valof_zero)
    then show ?thesis
      using underflow_unit_pos by (simp only: p0 z) simp
  next
    case False
    with m n have M: "0 < m * n"
      by (simp add: zero_less_mult_iff less_le)
    from fin have fin': "is_finite (round_rne (s \<noteq> t) (m * n) (e + d))"
      by (simp add: f)
    from M have "\<bar>real_of_int (m * n)\<bar> = real_of_int (m * n)"
      by (simp only: of_int_abs [symmetric] of_int_eq_iff abs_of_pos)
    then have a: "\<bar>valof x * valof y\<bar> = real_of_int (m * n) * 2 powi (e + d)"
      by (simp only: prod abs_mult signed_abs) simp
    from round_rne_valof(1,2) [OF M fin'] show ?thesis
      by (simp only: f prod [symmetric] a [symmetric])
  qed
  from both show "well_formed (fmul x y)" by simp
  from both show "\<bar>valof (fmul x y) - valof x * valof y\<bar>
           \<le> unit_roundoff * \<bar>valof x * valof y\<bar> + underflow_unit" by simp
qed

lemma fadd_error:
  assumes fin: "is_finite (fadd x y)"
  shows "well_formed (fadd x y)"
    and "\<bar>valof (fadd x y) - (valof x + valof y)\<bar>
           \<le> unit_roundoff * \<bar>valof x + valof y\<bar> + underflow_unit"
    and "valid x \<Longrightarrow> valid y \<Longrightarrow>
         \<bar>valof (fadd x y) - (valof x + valof y)\<bar> \<le> unit_roundoff * \<bar>valof x + valof y\<bar>"
proof -
  from fin fadd_finite [of x y] obtain s m e t n d
    where X: "x = Finite s m e" and Y: "y = Finite t n d"
    by (auto elim!: is_finiteE)
  define c where "c = min e d"
  define v where "v = signed s (m * 2 ^ nat (e - c)) + signed t (n * 2 ^ nat (d - c))"
  have f: "fadd x y = (if v = 0 then Finite (s \<and> t) 0 (- 1074) else round_rne (v < 0) \<bar>v\<bar> c)"
    by (simp add: X Y Let_def c_def v_def)
  have vv: "real_of_int v * 2 powi c = valof x + valof y"
    using scaled_value [of c e s m] scaled_value [of c d t n]
    by (simp add: X Y valof_Finite v_def c_def distrib_right)
  have all: "well_formed (fadd x y) \<and>
      \<bar>valof (fadd x y) - (valof x + valof y)\<bar>
           \<le> unit_roundoff * \<bar>valof x + valof y\<bar> + underflow_unit \<and>
      (- 1074 \<le> c \<longrightarrow>
         \<bar>valof (fadd x y) - (valof x + valof y)\<bar> \<le> unit_roundoff * \<bar>valof x + valof y\<bar>)"
  proof (cases "v = 0")
    case True
    with vv have "valof x + valof y = 0" by simp
    with True f show ?thesis
      using underflow_unit_pos by (simp add: valof_zero)
  next
    case False
    then have M: "0 < \<bar>v\<bar>" by simp
    from fin False have fin': "is_finite (round_rne (v < 0) \<bar>v\<bar> c)"
      by (simp add: f)
    have sv: "signed (v < 0) \<bar>v\<bar> = v"
      by (simp add: signed_def)
    have a: "\<bar>valof x + valof y\<bar> = real_of_int \<bar>v\<bar> * 2 powi c"
      by (simp add: vv [symmetric] abs_mult)
    from round_rne_valof [OF M fin'] False show ?thesis
      by (simp only: f sv vv a if_False) simp
  qed
  from all show "well_formed (fadd x y)" by simp
  from all show "\<bar>valof (fadd x y) - (valof x + valof y)\<bar>
           \<le> unit_roundoff * \<bar>valof x + valof y\<bar> + underflow_unit" by simp
  assume "valid x" "valid y"
  with X Y have "- 1074 \<le> c" by (simp add: c_def)
  with all show "\<bar>valof (fadd x y) - (valof x + valof y)\<bar> \<le> unit_roundoff * \<bar>valof x + valof y\<bar>"
    by simp
qed

lemma theta_eq: "unit_roundoff * underflow_theta = (2 + unit_roundoff) * underflow_unit"
proof -
  have "unit_roundoff * 2 ^ 54 = 2"
    by (simp add: unit_roundoff_def)
  then have "unit_roundoff * (2 ^ 54 + 1) = 2 + unit_roundoff"
    by (simp only: distrib_left mult_1_right)
  then show ?thesis
    by (simp only: underflow_theta_def mult.assoc [symmetric])
qed

lemma theta_nonneg: "0 \<le> underflow_theta"
  using underflow_unit_pos by (simp add: underflow_theta_def)

lemma adot_nonneg: "0 \<le> adot xs ys"
  unfolding adot_def by (rule sum_list_nonneg) auto

lemma rdot_Cons: "rdot (x # xs) (y # ys) = valof x * valof y + rdot xs ys"
  by (simp add: rdot_def)

lemma adot_Cons: "adot (x # xs) (y # ys) = \<bar>valof x * valof y\<bar> + adot xs ys"
  by (simp add: adot_def)

lemma rdot_le_adot: "\<bar>rdot xs ys\<bar> \<le> adot xs ys"
proof (induction xs arbitrary: ys)
  case Nil
  then show ?case by (simp add: rdot_def adot_def)
next
  case (Cons x xs)
  show ?case
  proof (cases ys)
    case Nil
    then show ?thesis by (simp add: rdot_def adot_def)
  next
    case (Cons y ys')
    have "\<bar>valof x * valof y + rdot xs ys'\<bar> \<le> \<bar>valof x * valof y\<bar> + \<bar>rdot xs ys'\<bar>"
      by (rule abs_triangle_ineq)
    with Cons.IH [of ys'] show ?thesis
      by (simp add: Cons rdot_Cons adot_Cons)
  qed
qed

text \<open>One turn of the loop: the accumulator grows and drifts by controlled amounts.\<close>

lemma step_error:
  assumes wx: "well_formed x" and wy: "well_formed y"
    and fin: "is_finite (fadd s (fmul x y))"
  defines "g \<equiv> 1 + unit_roundoff"
  defines "T \<equiv> g * (\<bar>valof s\<bar> + underflow_theta) + g * g * \<bar>valof x * valof y\<bar>"
  shows "\<bar>valof (fadd s (fmul x y)) - (valof s + valof x * valof y)\<bar>
           \<le> T - (\<bar>valof s\<bar> + underflow_theta + \<bar>valof x * valof y\<bar>)"
    and "\<bar>valof (fadd s (fmul x y))\<bar> + underflow_theta \<le> T"
proof -
  define u where "u = unit_roundoff"
  define \<eta> where "\<eta> = underflow_unit"
  define \<sigma> where "\<sigma> = \<bar>valof s\<bar>"
  define \<pi> where "\<pi> = \<bar>valof x * valof y\<bar>"
  define P where "P = valof (fmul x y)"
  define S where "S = valof (fadd s (fmul x y))"
  have u0: "0 \<le> u" using unit_roundoff_pos by (simp add: u_def)
  from fin fadd_finite have finp: "is_finite (fmul x y)" by blast
  from fmul_error(2) [OF wx wy finp] have e1: "\<bar>P - valof x * valof y\<bar> \<le> u * \<pi> + \<eta>"
    by (simp add: P_def u_def \<eta>_def \<pi>_def)
  from fadd_error(2) [OF fin] have e2: "\<bar>S - (valof s + P)\<bar> \<le> u * \<bar>valof s + P\<bar> + \<eta>"
    by (simp add: P_def S_def u_def \<eta>_def)
  have "\<bar>valof s + P\<bar> \<le> \<sigma> + \<pi> + (u * \<pi> + \<eta>)"
    using e1 unfolding \<sigma>_def \<pi>_def by linarith
  then have "u * \<bar>valof s + P\<bar> \<le> u * (\<sigma> + \<pi> + (u * \<pi> + \<eta>))"
    using u0 by (rule mult_left_mono)
  also have "\<dots> = u * \<sigma> + u * \<pi> + u * (u * \<pi>) + u * \<eta>"
    by (simp add: algebra_simps)
  finally have e3: "u * \<bar>valof s + P\<bar> \<le> u * \<sigma> + u * \<pi> + u * (u * \<pi>) + u * \<eta>" .
  have th: "u * underflow_theta = 2 * \<eta> + u * \<eta>"
    using theta_eq by (simp add: u_def \<eta>_def algebra_simps)
  have Teq: "T - (\<sigma> + underflow_theta + \<pi>) =
      u * \<sigma> + (2 * \<eta> + u * \<eta>) + 2 * (u * \<pi>) + u * (u * \<pi>)"
    unfolding T_def g_def u_def [symmetric] \<sigma>_def [symmetric] \<pi>_def [symmetric] th [symmetric]
    by (simp add: algebra_simps)
  have d: "\<bar>S - (valof s + valof x * valof y)\<bar> \<le> T - (\<sigma> + underflow_theta + \<pi>)"
    unfolding Teq using e1 e2 e3 by linarith
  then show "\<bar>valof (fadd s (fmul x y)) - (valof s + valof x * valof y)\<bar>
           \<le> T - (\<bar>valof s\<bar> + underflow_theta + \<bar>valof x * valof y\<bar>)"
    by (simp only: S_def \<sigma>_def \<pi>_def)
  have "\<bar>S\<bar> \<le> \<sigma> + \<pi> + \<bar>S - (valof s + valof x * valof y)\<bar>"
    unfolding \<sigma>_def \<pi>_def by linarith
  with d have "\<bar>S\<bar> + underflow_theta \<le> T" by linarith
  then show "\<bar>valof (fadd s (fmul x y))\<bar> + underflow_theta \<le> T"
    by (simp only: S_def)
qed

lemma foldl_fadd_finite:
  "is_finite (foldl fadd s zs) \<Longrightarrow> is_finite s \<and> list_all is_finite zs"
proof (induction zs arbitrary: s)
  case Nil
  then show ?case by simp
next
  case (Cons z zs)
  then have "is_finite (fadd s z) \<and> list_all is_finite zs" by simp
  with fadd_finite [of s z] show ?case by simp
qed

lemma foldl_error:
  assumes "list_all2 (\<lambda>x y. well_formed x \<and> well_formed y) xs ys"
    and "is_finite (foldl fadd s (map2 fmul xs ys))"
  shows "\<bar>valof (foldl fadd s (map2 fmul xs ys)) - (valof s + rdot xs ys)\<bar>
     \<le> (1 + unit_roundoff) ^ length xs * (\<bar>valof s\<bar> + underflow_theta)
       + (1 + unit_roundoff) ^ (length xs + 1) * adot xs ys
       - (\<bar>valof s\<bar> + underflow_theta + adot xs ys)"
  using assms
proof (induction xs ys arbitrary: s rule: list_all2_induct)
  case Nil
  then show ?case by (simp add: rdot_def adot_def)
next
  case (Cons x xs y ys)
  define g where "g = 1 + unit_roundoff"
  define G where "G = g ^ length xs"
  define s' where "s' = fadd s (fmul x y)"
  define F where "F = valof (foldl fadd s' (map2 fmul xs ys))"
  define \<Sigma> where "\<Sigma> = \<bar>valof s\<bar> + underflow_theta"
  define \<Sigma>' where "\<Sigma>' = \<bar>valof s'\<bar> + underflow_theta"
  define \<pi> where "\<pi> = \<bar>valof x * valof y\<bar>"
  define A where "A = adot xs ys"
  define T where "T = g * \<Sigma> + g * g * \<pi>"
  have g1: "1 \<le> g" using unit_roundoff_pos by (simp add: g_def)
  then have G1: "1 \<le> G" unfolding G_def by (rule one_le_power)
  have A0: "0 \<le> A" unfolding A_def by (rule adot_nonneg)
  from Cons.prems have finF: "is_finite (foldl fadd s' (map2 fmul xs ys))"
    by (simp add: s'_def)
  then have fins: "is_finite s'" using foldl_fadd_finite by blast
  from Cons.hyps(1) have wx: "well_formed x" and wy: "well_formed y" by simp_all
  from step_error [OF wx wy fins [unfolded s'_def]]
  have d: "\<bar>valof s' - (valof s + valof x * valof y)\<bar> \<le> T - (\<Sigma> + \<pi>)"
    and b: "\<Sigma>' \<le> T"
    by (simp_all add: T_def g_def \<Sigma>_def \<Sigma>'_def \<pi>_def s'_def algebra_simps)
  from Cons.IH [OF finF]
  have ih: "\<bar>F - (valof s' + rdot xs ys)\<bar> \<le> G * \<Sigma>' + G * g * A - (\<Sigma>' + A)"
    by (simp add: F_def G_def g_def \<Sigma>'_def A_def algebra_simps)
  have "(G - 1) * \<Sigma>' \<le> (G - 1) * T"
    using b G1 by (intro mult_left_mono) simp_all
  then have b': "G * \<Sigma>' - \<Sigma>' \<le> G * T - T"
    by (simp add: algebra_simps)
  have "G * g * A \<le> G * g * (g * A)"
  proof -
    have "1 * A \<le> g * A" using g1 A0 by (intro mult_right_mono) simp_all
    moreover have "0 \<le> G * g" using g1 G1 by simp
    ultimately show ?thesis by (intro mult_left_mono) simp_all
  qed
  then have a': "G * g * A \<le> G * g * g * A"
    by (simp add: mult.assoc)
  have tri: "\<bar>F - (valof s + valof x * valof y + rdot xs ys)\<bar>
      \<le> \<bar>F - (valof s' + rdot xs ys)\<bar> + \<bar>valof s' - (valof s + valof x * valof y)\<bar>"
    by linarith
  have GT: "G * T = G * g * \<Sigma> + G * g * g * \<pi>"
    by (simp add: T_def algebra_simps)
  from tri ih d b' a'
  have "\<bar>F - (valof s + valof x * valof y + rdot xs ys)\<bar>
      \<le> G * g * \<Sigma> + (G * g * g * \<pi> + G * g * g * A) - (\<Sigma> + (\<pi> + A))"
    unfolding GT by linarith
  then show ?case
    by (simp add: F_def s'_def rdot_Cons adot_Cons G_def g_def \<Sigma>_def \<pi>_def A_def algebra_simps)
qed

lemma spec_dot_error:
  assumes "list_all2 (\<lambda>x y. well_formed x \<and> well_formed y) xs ys"
    and "is_finite (spec_dot xs ys)"
  shows "\<bar>valof (spec_dot xs ys) - rdot xs ys\<bar>
     \<le> ((1 + unit_roundoff) ^ length xs - 1) * underflow_theta
       + ((1 + unit_roundoff) ^ (length xs + 1) - 1) * adot xs ys"
proof -
  have z: "valof zero_f64 = 0"
    by (simp add: zero_f64_def valof_zero)
  from foldl_error [OF assms(1) assms(2) [unfolded spec_dot_def]] show ?thesis
    by (simp add: spec_dot_def z algebra_simps)
qed

lemma abs_weight_Cons:
  "abs_weight (x # xs) (y # ys) (z # zs) =
     \<bar>valof x\<bar> * (\<bar>valof y\<bar> + \<bar>valof z\<bar>) + abs_weight xs ys zs"
  by (simp add: abs_weight_def)

lemma abs_weight_nonneg: "0 \<le> abs_weight xs ys zs"
  unfolding abs_weight_def by (rule sum_list_nonneg) auto

lemma map2_fmul_finite:
  "length xs = length ys \<Longrightarrow> list_all is_finite (map2 fmul xs ys) \<Longrightarrow>
   list_all is_finite xs \<and> list_all is_finite ys"
proof (induction xs ys rule: list_induct2)
  case Nil
  then show ?case by simp
next
  case (Cons x xs y ys)
  then show ?case using fmul_finite [of x y] by simp
qed

lemma elem_bounds:
  assumes y: "valid y" and z: "valid z" and fin: "is_finite (fadd y z)"
  shows "\<bar>valof x * valof (fadd y z)\<bar>
           \<le> (1 + unit_roundoff) * (\<bar>valof x\<bar> * (\<bar>valof y\<bar> + \<bar>valof z\<bar>))"
    and "\<bar>valof x * valof (fadd y z) - (valof x * valof y + valof x * valof z)\<bar>
           \<le> unit_roundoff * (\<bar>valof x\<bar> * (\<bar>valof y\<bar> + \<bar>valof z\<bar>))"
proof -
  define u where "u = unit_roundoff"
  define D where "D = valof (fadd y z)"
  define w where "w = \<bar>valof y\<bar> + \<bar>valof z\<bar>"
  have u0: "0 \<le> u" using unit_roundoff_pos by (simp add: u_def)
  from fadd_error(3) [OF fin y z] have e: "\<bar>D - (valof y + valof z)\<bar> \<le> u * \<bar>valof y + valof z\<bar>"
    by (simp add: D_def u_def)
  have "u * \<bar>valof y + valof z\<bar> \<le> u * w"
    unfolding w_def using u0 by (intro mult_left_mono) simp_all
  with e have e': "\<bar>D - (valof y + valof z)\<bar> \<le> u * w" by linarith
  then have "\<bar>D\<bar> \<le> w + u * w" unfolding w_def by linarith
  then have Db: "\<bar>D\<bar> \<le> (1 + u) * w" by (simp add: algebra_simps)
  have "\<bar>valof x * D\<bar> = \<bar>valof x\<bar> * \<bar>D\<bar>" by (rule abs_mult)
  also have "\<dots> \<le> \<bar>valof x\<bar> * ((1 + u) * w)"
    using Db by (intro mult_left_mono) simp_all
  finally show "\<bar>valof x * valof (fadd y z)\<bar>
           \<le> (1 + unit_roundoff) * (\<bar>valof x\<bar> * (\<bar>valof y\<bar> + \<bar>valof z\<bar>))"
    by (simp add: D_def u_def w_def algebra_simps)
  have "valof x * D - (valof x * valof y + valof x * valof z) = valof x * (D - (valof y + valof z))"
    by (simp add: algebra_simps)
  then have "\<bar>valof x * D - (valof x * valof y + valof x * valof z)\<bar> =
      \<bar>valof x\<bar> * \<bar>D - (valof y + valof z)\<bar>"
    by (simp only: abs_mult)
  also have "\<dots> \<le> \<bar>valof x\<bar> * (u * w)"
    using e' by (intro mult_left_mono) simp_all
  finally show "\<bar>valof x * valof (fadd y z) - (valof x * valof y + valof x * valof z)\<bar>
           \<le> unit_roundoff * (\<bar>valof x\<bar> * (\<bar>valof y\<bar> + \<bar>valof z\<bar>))"
    by (simp add: D_def u_def w_def algebra_simps)
qed

lemma vec_add_bounds:
  assumes "length xs = length ys" "length ys = length zs"
    and "list_all valid ys" "list_all valid zs" "list_all is_finite (vec_add ys zs)"
  shows "adot xs (vec_add ys zs) \<le> (1 + unit_roundoff) * abs_weight xs ys zs
     \<and> \<bar>rdot xs (vec_add ys zs) - (rdot xs ys + rdot xs zs)\<bar> \<le> unit_roundoff * abs_weight xs ys zs
     \<and> adot xs ys + adot xs zs = abs_weight xs ys zs
     \<and> list_all well_formed (vec_add ys zs)"
  using assms
proof (induction xs ys zs rule: list_induct3)
  case Nil
  then show ?case by (simp add: adot_def rdot_def abs_weight_def vec_add_def)
next
  case (Cons x xs y ys z zs)
  from Cons.prems have y: "valid y" and z: "valid z" and fin: "is_finite (fadd y z)"
    and ys: "list_all valid ys" and zs: "list_all valid zs"
    and fins: "list_all is_finite (vec_add ys zs)"
    by (simp_all add: vec_add_def)
  from Cons.IH [OF ys zs fins]
  have i1: "adot xs (vec_add ys zs) \<le> (1 + unit_roundoff) * abs_weight xs ys zs"
    and i2: "\<bar>rdot xs (vec_add ys zs) - (rdot xs ys + rdot xs zs)\<bar> \<le> unit_roundoff * abs_weight xs ys zs"
    and i3: "adot xs ys + adot xs zs = abs_weight xs ys zs"
    and i4: "list_all well_formed (vec_add ys zs)"
    by simp_all
  note e = elem_bounds [OF y z fin, of x]
  have v: "vec_add (y # ys) (z # zs) = fadd y z # vec_add ys zs"
    by (simp add: vec_add_def)
  have c1: "adot (x # xs) (vec_add (y # ys) (z # zs))
      \<le> (1 + unit_roundoff) * abs_weight (x # xs) (y # ys) (z # zs)"
    using e(1) i1 by (simp add: v adot_Cons abs_weight_Cons algebra_simps)
  have c2: "\<bar>rdot (x # xs) (vec_add (y # ys) (z # zs)) - (rdot (x # xs) (y # ys) + rdot (x # xs) (z # zs))\<bar>
      \<le> unit_roundoff * abs_weight (x # xs) (y # ys) (z # zs)"
  proof -
    have "\<bar>(valof x * valof (fadd y z) + rdot xs (vec_add ys zs))
          - ((valof x * valof y + rdot xs ys) + (valof x * valof z + rdot xs zs))\<bar>
        \<le> \<bar>valof x * valof (fadd y z) - (valof x * valof y + valof x * valof z)\<bar>
          + \<bar>rdot xs (vec_add ys zs) - (rdot xs ys + rdot xs zs)\<bar>"
      by linarith
    with e(2) i2 show ?thesis
      by (simp add: v rdot_Cons abs_weight_Cons algebra_simps)
  qed
  have c3: "adot (x # xs) (y # ys) + adot (x # xs) (z # zs) = abs_weight (x # xs) (y # ys) (z # zs)"
    using i3 by (simp add: adot_Cons abs_weight_Cons abs_mult algebra_simps)
  have c4: "list_all well_formed (vec_add (y # ys) (z # zs))"
    using i4 fadd_error(1) [OF fin] by (simp add: v)
  from c1 c2 c3 c4 show ?case by blast
qed

lemma list_all2_conjI:
  "length xs = length ys \<Longrightarrow> list_all P xs \<Longrightarrow> list_all Q ys \<Longrightarrow>
   list_all2 (\<lambda>x y. P x \<and> Q y) xs ys"
  by (induction xs ys rule: list_induct2) simp_all

lemma list_all_valid_well_formed: "list_all valid xs \<Longrightarrow> list_all well_formed xs"
  by (induction xs) (simp_all add: valid_well_formed)

lemma linear_arith:
  fixes u G \<theta> \<eta> W Ad Ab Ac rd rb rc L R1 R2 R :: real
  assumes u0: "0 \<le> u" and G1: "1 \<le> G"
    and f1: "\<bar>L - rd\<bar> \<le> (G - 1) * \<theta> + (G * (1 + u) - 1) * Ad"
    and f2: "Ad \<le> (1 + u) * W"
    and f3: "\<bar>rd - (rb + rc)\<bar> \<le> u * W"
    and f4: "\<bar>R1 - rb\<bar> \<le> (G - 1) * \<theta> + (G * (1 + u) - 1) * Ab"
    and f5: "\<bar>R2 - rc\<bar> \<le> (G - 1) * \<theta> + (G * (1 + u) - 1) * Ac"
    and f6: "Ab + Ac = W"
    and f7: "\<bar>rb\<bar> \<le> Ab" "\<bar>rc\<bar> \<le> Ac"
    and f8: "\<bar>R - (R1 + R2)\<bar> \<le> u * \<bar>R1 + R2\<bar> + \<eta>"
  shows "\<bar>L - R\<bar> \<le> 2 * (G * (1 + u) * (1 + u) - 1) * W + (G - 1) * ((3 + 2 * u) * \<theta>) + \<eta>"
proof -
  define K where "K = G * (1 + u) - 1"
  have K0: "0 \<le> K"
  proof -
    have "1 * 1 \<le> G * (1 + u)" using G1 u0 by (intro mult_mono) simp_all
    then show ?thesis by (simp add: K_def)
  qed
  have t1: "K * Ad \<le> K * ((1 + u) * W)"
    using f2 K0 by (rule mult_left_mono)
  have KW: "K * Ab + K * Ac = K * W"
    by (simp only: distrib_left [symmetric] f6)
  have s: "\<bar>R1 + R2\<bar> \<le> W + 2 * ((G - 1) * \<theta>) + K * W"
    using f4 f5 f7 f6 KW unfolding K_def [symmetric] by linarith
  have t2: "u * \<bar>R1 + R2\<bar> \<le> u * (W + 2 * ((G - 1) * \<theta>) + K * W)"
    using s u0 by (rule mult_left_mono)
  have "\<bar>L - R\<bar> \<le> \<bar>L - rd\<bar> + \<bar>rd - (rb + rc)\<bar> + \<bar>R1 - rb\<bar> + \<bar>R2 - rc\<bar> + \<bar>R - (R1 + R2)\<bar>"
    by linarith
  with f1 f3 f4 f5 f8 t1 t2 KW
  have "\<bar>L - R\<bar> \<le> (G - 1) * \<theta> + K * ((1 + u) * W) + u * W + 2 * ((G - 1) * \<theta>) + K * W
      + u * (W + 2 * ((G - 1) * \<theta>) + K * W) + \<eta>"
    unfolding K_def [symmetric] by linarith
  also have "\<dots> = 2 * (G * (1 + u) * (1 + u) - 1) * W + (G - 1) * ((3 + 2 * u) * \<theta>) + \<eta>"
    unfolding K_def by (simp add: algebra_simps)
  finally show ?thesis .
qed

section \<open>The operations return doubles\<close>

text \<open>
  Whatever is rounded, the result is a value a binary64 datum can hold; so are the sums,
  the products, and what \<open>dot_cpp\<close> returns.
\<close>

lemma bit_length_upper: "M < 2 ^ bit_length M"
  using bit_length_le [of M "bit_length M"]
proof (induction M rule: bit_length.induct)
  case (1 n)
  show ?case
  proof (cases "n \<le> 0")
    case True
    then show ?thesis by (simp add: bit_length.simps [of n])
  next
    case False
    have "n div 2 < 2 ^ bit_length (n div 2)"
      using "1.IH" [OF False] bit_length_le [of "n div 2" "bit_length (n div 2)"] by simp
    then have "n < 2 * 2 ^ bit_length (n div 2)" by linarith
    with False show ?thesis by (simp add: bit_length.simps [of n])
  qed
qed

lemma div_pow2_less:
  fixes M :: int
  assumes "0 \<le> M" "M < 2 ^ (j + k)"
  shows "M div 2 ^ k < 2 ^ j"
proof (rule ccontr)
  assume "\<not> M div 2 ^ k < 2 ^ j"
  then have "(2::int) ^ j * 2 ^ k \<le> M div 2 ^ k * 2 ^ k"
    by (intro mult_right_mono) simp_all
  also have "\<dots> \<le> M div 2 ^ k * 2 ^ k + M mod 2 ^ k"
    by simp
  also have "\<dots> = M"
    by (rule div_mult_mod_eq)
  finally show False using assms(2) by (simp add: power_add)
qed

lemma div_pow2_ge:
  fixes M :: int
  assumes "2 ^ (j + k) \<le> M"
  shows "2 ^ j \<le> M div 2 ^ k"
proof -
  have "(2::int) ^ j * 2 ^ k \<le> M" using assms by (simp add: power_add)
  then have "(2 ^ j * 2 ^ k) div 2 ^ k \<le> M div 2 ^ k"
    by (intro zdiv_mono1) simp_all
  then show ?thesis by simp
qed

lemma round_rne_valid:
  assumes M: "0 \<le> M"
  shows "valid (round_rne s M E)"
proof (cases "M = 0")
  case True
  then show ?thesis by (simp add: round_rne_def)
next
  case False
  with M have Mp: "0 < M" by simp
  define bl where "bl = bit_length M"
  define e0 where "e0 = max (E + int (bit_length M) - 53) (- 1074)"
  define k where "k = nat (e0 - E)"
  define q' where "q' = (if 2 ^ (k - 1) < M mod 2 ^ k \<or> (M mod 2 ^ k = 2 ^ (k - 1) \<and> odd (M div 2 ^ k))
                         then M div 2 ^ k + 1 else M div 2 ^ k)"
  note unf = round_rne_unfold [OF e0_def k_def q'_def, of s]
  have up: "M < 2 ^ bl" unfolding bl_def by (rule bit_length_upper)
  have low: "2 ^ (bl - 1) \<le> M" unfolding bl_def using Mp by (rule bit_length_lower)
  have blp: "0 < bl" unfolding bl_def using Mp by (rule bit_length_pos)
  have e0l: "- 1074 \<le> e0" and e0b: "E + int bl - 53 \<le> e0"
    by (simp_all add: e0_def bl_def)
  show ?thesis
  proof (cases "e0 \<le> E")
    case True
    define j where "j = nat (E - e0)"
    have r: "round_rne s M E = pack s (M * 2 ^ j) e0"
      using True False by (simp only: unf if_True if_False j_def)
    have "bl + j \<le> 53" using e0b True by (simp add: j_def)
    then have "(2::int) ^ (bl + j) \<le> 2 ^ 53"
      by (intro power_increasing) simp_all
    then have le53: "(2::int) ^ bl * 2 ^ j \<le> 2 ^ 53"
      by (simp only: power_add)
    have "M * 2 ^ j < 2 ^ bl * 2 ^ j" using up by simp
    from this le53 have m53: "M * 2 ^ j < 2 ^ 53" by (rule less_le_trans)
    have m0: "0 \<le> M * 2 ^ j" using M by simp
    have m52: "e0 = - 1074 \<or> 2 ^ 52 \<le> M * 2 ^ j"
    proof (rule disjCI)
      assume "\<not> 2 ^ 52 \<le> M * 2 ^ j"
      show "e0 = - 1074"
      proof (rule ccontr)
      assume "e0 \<noteq> - 1074"
      then have "e0 = E + int bl - 53" by (simp add: e0_def bl_def)
      with True blp have "(bl - 1) + j = 52" by (simp add: j_def)
      then have "(2::int) ^ 52 = 2 ^ (bl - 1) * 2 ^ j" by (simp only: power_add [symmetric])
      also have "\<dots> \<le> M * 2 ^ j" using low by simp
      finally show False using \<open>\<not> 2 ^ 52 \<le> M * 2 ^ j\<close> by simp
      qed
    qed
    show ?thesis
      using m0 m53 m52 e0l by (auto simp add: r pack_def)
  next
    case Fa: False
    have r: "round_rne s M E = (if q' = 2 ^ 53 then pack s (2 ^ 52) (e0 + 1) else pack s q' e0)"
      using Fa False by (simp only: unf if_True if_False)
    from Fa have k1: "1 \<le> k" and e0k: "e0 = E + int k" by (simp_all add: k_def)
    have q0: "0 \<le> M div 2 ^ k" using M by (simp add: pos_imp_zdiv_nonneg_iff)
    have qle: "M div 2 ^ k \<le> q'" and qge: "q' \<le> M div 2 ^ k + 1"
      by (simp_all add: q'_def)
    have "int bl \<le> 53 + int k" using e0b e0k by simp
    then have "bl \<le> 53 + k" by simp
    then have "(2::int) ^ bl \<le> 2 ^ (53 + k)"
      by (intro power_increasing) simp_all
    with up have "M < 2 ^ (53 + k)" by (rule less_le_trans)
    with M have "M div 2 ^ k < 2 ^ 53" by (rule div_pow2_less)
    with qge have q53: "q' \<le> 2 ^ 53" by simp
    have q52: "e0 = - 1074 \<or> 2 ^ 52 \<le> q'"
    proof (rule disjCI)
      assume "\<not> 2 ^ 52 \<le> q'"
      show "e0 = - 1074"
      proof (rule ccontr)
      assume "e0 \<noteq> - 1074"
      then have "e0 = E + int bl - 53" by (simp add: e0_def bl_def)
      with e0k have "bl - 1 = 52 + k" by simp
      with low have "2 ^ (52 + k) \<le> M" by simp
      then have "2 ^ 52 \<le> M div 2 ^ k" by (rule div_pow2_ge)
      with qle show False using \<open>\<not> 2 ^ 52 \<le> q'\<close> by simp
      qed
    qed
    show ?thesis
    proof (cases "q' = 2 ^ 53")
      case True
      with e0l show ?thesis by (simp add: r pack_def)
    next
      case False
      with q53 have "q' < 2 ^ 53" by simp
      with False q0 qle q52 e0l show ?thesis
        by (auto simp add: r pack_def)
    qed
  qed
qed

lemma fmul_valid: "valid x \<Longrightarrow> valid y \<Longrightarrow> valid (fmul x y)"
  by (cases x; cases y) (simp_all add: round_rne_valid)

lemma fadd_valid: "valid (fadd x y)"
  by (cases x; cases y) (simp_all add: round_rne_valid Let_def)

lemma foldl_fadd_valid: "valid s \<Longrightarrow> valid (foldl fadd s zs)"
  by (induction zs arbitrary: s) (simp_all add: fadd_valid)

lemma spec_dot_valid: "valid (spec_dot xs ys)"
  by (simp add: spec_dot_def foldl_fadd_valid zero_f64_def)

text \<open>
  Known results of binary64 arithmetic, evaluated in the model: \<open>0.1 + 0.2\<close> and \<open>0.1 * 3.0\<close>
  are \<open>0.30000000000000004\<close>; the largest double added to itself and \<open>1e308 * 10.0\<close>
  overflow; the least subnormal times \<open>0.5\<close> is a tie and rounds to the even \<open>0.0\<close>, three
  times the least subnormal times \<open>0.5\<close> rounds to twice the least subnormal; \<open>2^53 + 1\<close> is
  a tie and stays \<open>2^53\<close>, \<open>2^53 + 3\<close> rounds up to \<open>2^53 + 4\<close>.
\<close>

lemma arithmetic_known_values:
  "fadd (Finite False 7205759403792794 (- 56)) (Finite False 7205759403792794 (- 55))
     = Finite False 5404319552844596 (- 54)"
  "fmul (Finite False 7205759403792794 (- 56)) (Finite False 6755399441055744 (- 51))
     = Finite False 5404319552844596 (- 54)"
  "fadd (Finite False 9007199254740991 971) (Finite False 9007199254740991 971) = Infinity False"
  "fmul (Finite False 5010420900022432 971) (Finite False 5629499534213120 (- 49)) = Infinity False"
  "fmul (Finite False 1 (- 1074)) (Finite False 4503599627370496 (- 53)) = Finite False 0 (- 1074)"
  "fmul (Finite False 3 (- 1074)) (Finite False 4503599627370496 (- 53)) = Finite False 2 (- 1074)"
  "fadd (Finite False 4503599627370496 1) (Finite False 4503599627370496 (- 52))
     = Finite False 4503599627370496 1"
  "fadd (Finite False 4503599627370496 1) (Finite False 6755399441055744 (- 51))
     = Finite False 4503599627370498 1"
  by code_simp+

text \<open>The zeros, the infinities and NaN in sums and products.\<close>

lemma arithmetic_special_values:
  "fadd (Finite True 0 (- 1074)) zero_f64 = zero_f64"
  "fadd (Finite True 0 (- 1074)) (Finite True 0 (- 1074)) = Finite True 0 (- 1074)"
  "fadd (f64_of_int 1) (f64_of_int (- 1)) = zero_f64"
  "fadd (Infinity False) (Infinity True) = NaN"
  "fmul zero_f64 (Infinity False) = NaN"
  "fmul (f64_of_int (- 3)) zero_f64 = Finite True 0 (- 1074)"
  "feq (Finite True 0 (- 1074)) zero_f64"
  "\<not> feq NaN NaN"
  by code_simp+

lemma dot_cpp_result_valid: "fst (dot_cpp h a b) = Inr v \<Longrightarrow> valid v"
proof (cases "length (h a) = length (h b)")
  case True
  assume "fst (dot_cpp h a b) = Inr v"
  with True have "v = spec_dot (h a) (h b)"
    by (simp add: dot_cpp_equal_length)
  then show ?thesis by (simp add: spec_dot_valid)
next
  case False
  assume "fst (dot_cpp h a b) = Inr v"
  with False show ?thesis by (simp add: dot_cpp_different_length)
qed

section \<open>The claims\<close>

text \<open>
  C1. For every pair of arrays of one length, \<open>dot_cpp\<close> returns the sum of the
  elementwise products, computed in one pass from left to right: the accumulator starts
  at \<open>0.0\<close> and each product is added to it with the ordinary addition of doubles.
  The second equation is the same result in the words of the specification.
\<close>

theorem dot_cpp_left_to_right_sum:
  "length (h a) = length (h b) \<Longrightarrow>
   fst (dot_cpp h a b) = Inr (foldl (\<lambda>s (x, y). fadd s (fmul x y)) zero_f64 (zip (h a) (h b)))
   \<and> fst (dot_cpp h a b) = Inr (spec_dot (h a) (h b))"
  by (simp add: dot_cpp_equal_length spec_dot_def foldl_map case_prod_unfold)

theorem dot_cpp_left_to_right_sum_witness:
  "length (heap_of [f64_of_int 1, f64_of_int 2] [f64_of_int 3, f64_of_int 4] 0) =
     length (heap_of [f64_of_int 1, f64_of_int 2] [f64_of_int 3, f64_of_int 4] 1)
   \<and> fst (dot_cpp (heap_of [f64_of_int 1, f64_of_int 2] [f64_of_int 3, f64_of_int 4]) 0 1) =
       Inr (fadd (fadd zero_f64 (fmul (f64_of_int 1) (f64_of_int 3)))
              (fmul (f64_of_int 2) (f64_of_int 4)))"
  using dot_cpp_left_to_right_sum
    [of "heap_of [f64_of_int 1, f64_of_int 2] [f64_of_int 3, f64_of_int 4]" 0 1]
  by simp

text \<open>
  C2. \<open>dot_cpp\<close> fails with the length-mismatch error exactly when the two arrays differ in
  length; on arrays of one length it returns a double; it fails in no other way.
\<close>

theorem dot_cpp_error_iff_lengths_differ:
  "(fst (dot_cpp h a b) = Inl LengthMismatch \<longleftrightarrow> length (h a) \<noteq> length (h b))
   \<and> (length (h a) = length (h b) \<longrightarrow> (\<exists>v. fst (dot_cpp h a b) = Inr v))
   \<and> (\<forall>e. fst (dot_cpp h a b) = Inl e \<longrightarrow> e = LengthMismatch)"
proof (cases "length (h a) = length (h b)")
  case True
  then show ?thesis by (simp add: dot_cpp_equal_length)
next
  case False
  then show ?thesis by (simp add: dot_cpp_different_length)
qed

theorem dot_cpp_error_iff_lengths_differ_witness:
  "fst (dot_cpp (heap_of [f64_of_int 1, f64_of_int 2, f64_of_int 3]
          [f64_of_int 4, f64_of_int 5, f64_of_int 6, f64_of_int 7]) 0 1) = Inl LengthMismatch
   \<and> (\<exists>v. fst (dot_cpp (heap_of [f64_of_int 1] [f64_of_int 2]) 0 1) = Inr v)"
  using dot_cpp_error_iff_lengths_differ
      [of "heap_of [f64_of_int 1, f64_of_int 2, f64_of_int 3]
             [f64_of_int 4, f64_of_int 5, f64_of_int 6, f64_of_int 7]" 0 1]
    dot_cpp_error_iff_lengths_differ [of "heap_of [f64_of_int 1] [f64_of_int 2]" 0 1]
  by simp

text \<open>
  C3. On two empty arrays \<open>dot_cpp\<close> returns \<open>0.0\<close> (the positive zero), and the test
  \<^verbatim>\<open>dot([], []) == 0.0\<close> holds.
\<close>

theorem dot_cpp_empty:
  "h a = [] \<Longrightarrow> h b = [] \<Longrightarrow>
   fst (dot_cpp h a b) = Inr zero_f64 \<and> results_eq (fst (dot_cpp h a b)) (Inr zero_f64)"
  by (simp add: dot_cpp_equal_length spec_dot_Nil results_eq_def zero_f64_def)

theorem dot_cpp_empty_witness:
  "heap_of [] [] 0 = [] \<and> heap_of [] [] 1 = []
   \<and> dot [] [] = Inr zero_f64 \<and> results_eq (dot [] []) (Inr zero_f64)"
  using dot_cpp_empty [of "heap_of [] []" 0 1]
  by (auto simp add: dot_def)

text \<open>
  C4. The claim fails where the result is a NaN: \<open>dot [NaN] [1.0]\<close> and \<open>dot [1.0] [NaN]\<close>
  both return NaN, and \<^verbatim>\<open>NaN == NaN\<close> is false.
\<close>

theorem dot_commute_counterexample:
  "\<not> results_eq (dot [NaN] [f64_of_int 1]) (dot [f64_of_int 1] [NaN])"
  by code_simp

text \<open>
  C4, amended. The two calls \<open>dot_cpp h a b\<close> and \<open>dot_cpp h b a\<close> have the same outcome (the
  same double, where every NaN counts as one value, or the same error), and the test
  \<^verbatim>\<open>dot(a, b) == dot(b, a)\<close> holds exactly when the call returns a double that is
  not a NaN.
\<close>

theorem dot_cpp_commute:
  "fst (dot_cpp h a b) = fst (dot_cpp h b a)
   \<and> (results_eq (fst (dot_cpp h a b)) (fst (dot_cpp h b a)) \<longleftrightarrow>
        (\<exists>v. fst (dot_cpp h a b) = Inr v \<and> \<not> is_nan v))"
proof (cases "length (h a) = length (h b)")
  case True
  then have ab: "fst (dot_cpp h a b) = Inr (spec_dot (h a) (h b))"
    by (simp add: dot_cpp_equal_length)
  from True have ba: "fst (dot_cpp h b a) = Inr (spec_dot (h a) (h b))"
    by (simp add: dot_cpp_equal_length spec_dot_commute [of "h b" "h a"])
  show ?thesis
    using feq_same [of "spec_dot (h a) (h b)"] feq_nan [of "spec_dot (h a) (h b)"]
    by (auto simp add: ab ba results_eq_def)
next
  case False
  then show ?thesis
    by (simp add: dot_cpp_different_length results_eq_def)
qed

theorem dot_cpp_commute_witness:
  "fst (dot_cpp (heap_of [f64_of_int 1, f64_of_int 2] [f64_of_int 3, f64_of_int 4]) 0 1) =
     Inr (f64_of_int 11)
   \<and> \<not> is_nan (f64_of_int 11)
   \<and> fst (dot_cpp (heap_of [f64_of_int 1, f64_of_int 2] [f64_of_int 3, f64_of_int 4]) 0 1) =
       fst (dot_cpp (heap_of [f64_of_int 1, f64_of_int 2] [f64_of_int 3, f64_of_int 4]) 1 0)
   \<and> results_eq
       (fst (dot_cpp (heap_of [f64_of_int 1, f64_of_int 2] [f64_of_int 3, f64_of_int 4]) 0 1))
       (fst (dot_cpp (heap_of [f64_of_int 1, f64_of_int 2] [f64_of_int 3, f64_of_int 4]) 1 0))"
proof -
  let ?h = "heap_of [f64_of_int 1, f64_of_int 2] [f64_of_int 3, f64_of_int 4]"
  have r: "fst (dot_cpp ?h 0 1) = Inr (f64_of_int 11)"
    by code_simp
  have n: "\<not> is_nan (f64_of_int 11)"
    by code_simp
  from r n dot_cpp_commute [of ?h 0 1] show ?thesis
    by blast
qed

text \<open>
  C5. The claim fails where \<open>a\<close> holds an infinity (or a NaN): the product of an infinity
  and \<open>0.0\<close> is a NaN, so \<open>dot [inf] [0.0]\<close> returns NaN and the test against \<open>0.0\<close> fails.
\<close>

theorem dot_zeros_counterexample:
  "dot [Infinity False] (zeros_like [Infinity False]) = Inr NaN
   \<and> \<not> results_eq (dot [Infinity False] (zeros_like [Infinity False])) (Inr zero_f64)"
  by code_simp

text \<open>
  C5, amended. For every array \<open>a\<close> whose elements are all finite (no infinity, no NaN),
  \<open>dot_cpp\<close> of \<open>a\<close> and the zeros of its length returns the positive zero, and the test
  \<^verbatim>\<open>dot(a, zeros_like(a)) == 0.0\<close> holds.
\<close>

theorem dot_cpp_zeros_finite:
  "\<forall>x\<in>set (h a). is_finite x \<Longrightarrow> h b = zeros_like (h a) \<Longrightarrow>
   fst (dot_cpp h a b) = Inr zero_f64 \<and> results_eq (fst (dot_cpp h a b)) (Inr zero_f64)"
proof -
  assume fin: "\<forall>x\<in>set (h a). is_finite x" and b: "h b = zeros_like (h a)"
  from b have "length (h a) = length (h b)"
    by (simp add: zeros_like_def)
  then have "fst (dot_cpp h a b) = Inr (spec_dot (h a) (h b))"
    by (simp add: dot_cpp_equal_length)
  with fin b have "fst (dot_cpp h a b) = Inr zero_f64"
    by (simp add: spec_dot_def foldl_fadd_zeros)
  then show ?thesis
    by (simp add: results_eq_def zero_f64_def)
qed

theorem dot_cpp_zeros_finite_witness:
  "list_all is_finite
       (heap_of [Finite False (2 ^ 52) (- 52), Finite True 3 (- 1074)] [zero_f64, zero_f64] 0)
   \<and> heap_of [Finite False (2 ^ 52) (- 52), Finite True 3 (- 1074)] [zero_f64, zero_f64] 1 =
       zeros_like (heap_of [Finite False (2 ^ 52) (- 52), Finite True 3 (- 1074)]
                     [zero_f64, zero_f64] 0)
   \<and> fst (dot_cpp (heap_of [Finite False (2 ^ 52) (- 52), Finite True 3 (- 1074)]
                      [zero_f64, zero_f64]) 0 1) = Inr zero_f64
   \<and> results_eq
        (fst (dot_cpp (heap_of [Finite False (2 ^ 52) (- 52), Finite True 3 (- 1074)]
                         [zero_f64, zero_f64]) 0 1))
        (Inr zero_f64)"
proof -
  let ?h = "heap_of [Finite False (2 ^ 52) (- 52), Finite True 3 (- 1074)] [zero_f64, zero_f64]"
  have f: "\<forall>x\<in>set (?h 0). is_finite x"
    by simp
  have z: "?h 1 = zeros_like (?h 0)"
    by (simp add: zeros_like_def)
  have l: "list_all is_finite (?h 0)"
    by simp
  from l z dot_cpp_zeros_finite [of ?h 0 1, OF f z] show ?thesis
    by blast
qed

text \<open>
  C6. On \<open>[1.0, 2.0, 3.0]\<close> and \<open>[4.0, 5.0, 6.0]\<close> the result is the double \<open>32.0\<close>, that
  is \<open>2^52 * 2^-47\<close>, and the test \<^verbatim>\<open>dot(a, b) == 32.0\<close> holds.
\<close>

theorem dot_cpp_1_2_3_4_5_6:
  "dot [f64_of_int 1, f64_of_int 2, f64_of_int 3] [f64_of_int 4, f64_of_int 5, f64_of_int 6]
     = Inr (f64_of_int 32)
   \<and> f64_of_int 32 = Finite False (2 ^ 52) (- 47)
   \<and> results_eq
        (dot [f64_of_int 1, f64_of_int 2, f64_of_int 3] [f64_of_int 4, f64_of_int 5, f64_of_int 6])
        (Inr (f64_of_int 32))"
  by code_simp

text \<open>
  C7. The claim fails for every tolerance. With \<open>a = [2.0]\<close>, \<open>b = [2^1023]\<close> and
  \<open>c = [-2^1023]\<close>, all finite, \<open>b + c\<close> is \<open>[0.0]\<close> and \<open>dot a (b + c)\<close> is \<open>0.0\<close>, while
  the products \<open>2.0 * 2^1023\<close> and \<open>2.0 * -2^1023\<close> overflow to the two infinities and
  \<open>dot a b + dot a c\<close> is \<open>inf + (-inf)\<close>, a NaN: a NaN is within no tolerance of a number.
  With \<open>a = [1, 1]\<close>, \<open>b = [2^53, -2^53]\<close> and \<open>c = [1, 0]\<close>, where nothing overflows,
  \<open>2^53 + 1\<close> rounds to \<open>2^53\<close> and the left side is \<open>0.0\<close> while the right side is \<open>1.0\<close>.
\<close>

theorem dot_linear_counterexample:
  "dot [f64_of_int 2] (vec_add [huge_f64] [fneg huge_f64]) = Inr zero_f64
   \<and> results_add (dot [f64_of_int 2] [huge_f64]) (dot [f64_of_int 2] [fneg huge_f64]) = Inr NaN
   \<and> dot [f64_of_int 1, f64_of_int 1]
        (vec_add [f64_of_int (2 ^ 53), f64_of_int (- (2 ^ 53))] [f64_of_int 1, f64_of_int 0])
        = Inr zero_f64
   \<and> results_add (dot [f64_of_int 1, f64_of_int 1] [f64_of_int (2 ^ 53), f64_of_int (- (2 ^ 53))])
        (dot [f64_of_int 1, f64_of_int 1] [f64_of_int 1, f64_of_int 0]) = Inr (f64_of_int 1)"
  by code_simp

text \<open>
  C7, amended. For arrays \<open>a\<close>, \<open>b\<close>, \<open>c\<close> of one length \<open>n\<close> that hold doubles, when
  \<open>dot a (b + c)\<close> and \<open>dot a b + dot a c\<close> are finite (nothing overflowed and no NaN
  arose), their values differ by at most \<open>lin_tol n W\<close>, where \<open>W\<close> is the sum of the
  \<open>|a_i| * (|b_i| + |c_i|)\<close>: an absolute tolerance of about \<open>2 * (n + 2) * 2^-53 * W\<close>.
\<close>

theorem dot_cpp_linear_tolerance:
  assumes va: "list_all valid (h a)" and vb: "list_all valid (h b)" and vc: "list_all valid (h c)"
    and ab: "length (h a) = length (h b)" and bc: "length (h b) = length (h c)"
    and d: "h d = vec_add (h b) (h c)"
    and l: "fst (dot_cpp h a d) = Inr l"
    and r: "results_add (fst (dot_cpp h a b)) (fst (dot_cpp h a c)) = Inr r"
    and fl: "is_finite l" and fr: "is_finite r"
  shows "\<bar>valof l - valof r\<bar> \<le> lin_tol (length (h a)) (abs_weight (h a) (h b) (h c))"
proof -
  define n where "n = length (h a)"
  define u where "u = unit_roundoff"
  define G where "G = (1 + u) ^ n"
  have u0: "0 \<le> u" using unit_roundoff_pos by (simp add: u_def)
  then have G1: "1 \<le> G" unfolding G_def by (intro one_le_power) simp
  from ab bc have ac: "length (h a) = length (h c)" by simp
  from d ab bc have ad: "length (h a) = length (h d)" by (simp add: vec_add_def)
  have L: "l = spec_dot (h a) (h d)"
    using l ad by (simp add: dot_cpp_equal_length)
  have R: "r = fadd (spec_dot (h a) (h b)) (spec_dot (h a) (h c))"
    using r ab ac by (simp add: dot_cpp_equal_length results_add_def)
  from fr fadd_finite have f1: "is_finite (spec_dot (h a) (h b))"
    and f2: "is_finite (spec_dot (h a) (h c))"
    unfolding R by blast+
  from fl have "list_all is_finite (map2 fmul (h a) (h d))"
    unfolding L spec_dot_def using foldl_fadd_finite by blast
  with ad have "list_all is_finite (h d)"
    using map2_fmul_finite by blast
  then have fd: "list_all is_finite (vec_add (h b) (h c))"
    by (simp only: d)
  from vec_add_bounds [OF ab bc vb vc fd]
  have b1: "adot (h a) (h d) \<le> (1 + u) * abs_weight (h a) (h b) (h c)"
    and b2: "\<bar>rdot (h a) (h d) - (rdot (h a) (h b) + rdot (h a) (h c))\<bar>
               \<le> u * abs_weight (h a) (h b) (h c)"
    and b3: "adot (h a) (h b) + adot (h a) (h c) = abs_weight (h a) (h b) (h c)"
    and wd: "list_all well_formed (h d)"
    by (simp_all only: d u_def)
  note wa = list_all_valid_well_formed [OF va]
  note wb = list_all_valid_well_formed [OF vb]
  note wc = list_all_valid_well_formed [OF vc]
  have pw: "(1 + u) ^ (n + 1) = G * (1 + u)"
    by (simp add: G_def)
  from spec_dot_error [OF list_all2_conjI [OF ad wa wd] fl [unfolded L]]
  have e1: "\<bar>valof l - rdot (h a) (h d)\<bar>
      \<le> (G - 1) * underflow_theta + (G * (1 + u) - 1) * adot (h a) (h d)"
    by (simp only: L n_def [symmetric] u_def [symmetric] pw G_def [symmetric])
  from spec_dot_error [OF list_all2_conjI [OF ab wa wb] f1]
  have e2: "\<bar>valof (spec_dot (h a) (h b)) - rdot (h a) (h b)\<bar>
      \<le> (G - 1) * underflow_theta + (G * (1 + u) - 1) * adot (h a) (h b)"
    by (simp only: n_def [symmetric] u_def [symmetric] pw G_def [symmetric])
  from spec_dot_error [OF list_all2_conjI [OF ac wa wc] f2]
  have e3: "\<bar>valof (spec_dot (h a) (h c)) - rdot (h a) (h c)\<bar>
      \<le> (G - 1) * underflow_theta + (G * (1 + u) - 1) * adot (h a) (h c)"
    by (simp only: n_def [symmetric] u_def [symmetric] pw G_def [symmetric])
  from fadd_error(2) [OF fr [unfolded R]]
  have e4: "\<bar>valof r - (valof (spec_dot (h a) (h b)) + valof (spec_dot (h a) (h c)))\<bar>
      \<le> u * \<bar>valof (spec_dot (h a) (h b)) + valof (spec_dot (h a) (h c))\<bar> + underflow_unit"
    by (simp only: R u_def)
  have "(1 + u) ^ (n + 2) = G * (1 + u) * (1 + u)"
    by (simp add: G_def)
  then have tol: "lin_tol n (abs_weight (h a) (h b) (h c)) =
      2 * (G * (1 + u) * (1 + u) - 1) * abs_weight (h a) (h b) (h c)
      + (G - 1) * ((3 + 2 * u) * underflow_theta) + underflow_unit"
    by (simp only: lin_tol_def u_def [symmetric] G_def [symmetric])
  from linear_arith [OF u0 G1 e1 b1 b2 e2 e3 b3 rdot_le_adot rdot_le_adot e4]
  show ?thesis
    by (simp only: tol n_def [symmetric])
qed

theorem dot_cpp_linear_tolerance_witness:
  "list_all valid (linear_example 0) \<and> list_all valid (linear_example 1)
   \<and> list_all valid (linear_example 2)
   \<and> linear_example 3 = vec_add (linear_example 1) (linear_example 2)
   \<and> fst (dot_cpp linear_example 0 3) = Inr (Finite False (2 ^ 52 + 1) (- 51))
   \<and> results_add (fst (dot_cpp linear_example 0 1)) (fst (dot_cpp linear_example 0 2)) =
       Inr (Finite False (2 ^ 52 + 2) (- 51))
   \<and> \<bar>valof (Finite False (2 ^ 52 + 1) (- 51)) - valof (Finite False (2 ^ 52 + 2) (- 51))\<bar>
       \<le> lin_tol (length (linear_example 0))
            (abs_weight (linear_example 0) (linear_example 1) (linear_example 2))"
proof -
  have va: "list_all valid (linear_example 0)" by code_simp
  have vb: "list_all valid (linear_example 1)" by code_simp
  have vc: "list_all valid (linear_example 2)" by code_simp
  have ab: "length (linear_example 0) = length (linear_example 1)" by code_simp
  have bc: "length (linear_example 1) = length (linear_example 2)" by code_simp
  have d: "linear_example 3 = vec_add (linear_example 1) (linear_example 2)" by code_simp
  have l: "fst (dot_cpp linear_example 0 3) = Inr (Finite False (2 ^ 52 + 1) (- 51))"
    by code_simp
  have r: "results_add (fst (dot_cpp linear_example 0 1)) (fst (dot_cpp linear_example 0 2)) =
      Inr (Finite False (2 ^ 52 + 2) (- 51))"
    by code_simp
  have fl: "is_finite (Finite False (2 ^ 52 + 1) (- 51))" by simp
  have fr: "is_finite (Finite False (2 ^ 52 + 2) (- 51))" by simp
  from va vb vc d l r dot_cpp_linear_tolerance [OF va vb vc ab bc d l r fl fr]
  show ?thesis by blast
qed

text \<open>
  C8. \<open>dot_cpp\<close> has no side effect: after any call, one that returns or one that fails,
  the memory is the one before the call, so both arrays hold what they held.
\<close>

theorem dot_cpp_no_side_effect:
  "snd (dot_cpp h a b) = h \<and> snd (dot_cpp h a b) a = h a \<and> snd (dot_cpp h a b) b = h b"
  by (simp add: dot_cpp_def Let_def dot_cpp_loop_heap)

text \<open>
  C9. When the two arrays have one length, every index \<open>i\<close> with \<open>0 \<le> i < size\<close> that the
  loop reads is a position of both arrays, and neither the loop, from any counter that is
  not negative, nor \<open>dot_cpp\<close> reaches the out-of-range outcome.
\<close>

theorem dot_cpp_reads_in_bounds:
  "length (h a) = length (h b) \<Longrightarrow>
   (\<forall>i. 0 \<le> i \<and> i < size_buf (request h a) \<longrightarrow>
      load h (ptr (request h a)) i = Some (h a ! nat i) \<and>
      load h (ptr (request h b)) i = Some (h b ! nat i))
   \<and> (\<forall>i s. 0 \<le> i \<longrightarrow>
        fst (dot_cpp_loop h (ptr (request h a)) (ptr (request h b)) (size_buf (request h a)) i s)
          \<noteq> Inl out_of_bounds)
   \<and> fst (dot_cpp h a b) \<noteq> Inl out_of_bounds"
proof (intro conjI allI impI)
  fix i
  assume len: "length (h a) = length (h b)" and i: "0 \<le> i \<and> i < size_buf (request h a)"
  then show "load h (ptr (request h a)) i = Some (h a ! nat i)"
    by (simp add: request_def load_in_range)
  from len i show "load h (ptr (request h b)) i = Some (h b ! nat i)"
    by (simp add: request_def load_in_range)
next
  fix i s
  assume len: "length (h a) = length (h b)" and i: "(0::int) \<le> i"
  show "fst (dot_cpp_loop h (ptr (request h a)) (ptr (request h b)) (size_buf (request h a)) i s)
          \<noteq> Inl out_of_bounds"
  proof (cases "i \<le> int (length (h a))")
    case True
    with len i show ?thesis
      by (simp add: request_def dot_cpp_loop_run)
  next
    case False
    then show ?thesis
      by (simp add: request_def dot_cpp_loop.simps [of h a b "int (length (h a))" i s])
  qed
next
  assume "length (h a) = length (h b)"
  then show "fst (dot_cpp h a b) \<noteq> Inl out_of_bounds"
    by (simp add: dot_cpp_equal_length)
qed

theorem dot_cpp_reads_in_bounds_witness:
  "length (heap_of [f64_of_int 1, f64_of_int 2] [f64_of_int 3, f64_of_int 4] 0) =
     length (heap_of [f64_of_int 1, f64_of_int 2] [f64_of_int 3, f64_of_int 4] 1)
   \<and> load (heap_of [f64_of_int 1, f64_of_int 2] [f64_of_int 3, f64_of_int 4]) 0 1 = Some (f64_of_int 2)
   \<and> load (heap_of [f64_of_int 1, f64_of_int 2] [f64_of_int 3, f64_of_int 4]) 1 1 = Some (f64_of_int 4)
   \<and> fst (dot_cpp (heap_of [f64_of_int 1, f64_of_int 2] [f64_of_int 3, f64_of_int 4]) 0 1)
       \<noteq> Inl out_of_bounds"
  using dot_cpp_reads_in_bounds
    [of "heap_of [f64_of_int 1, f64_of_int 2] [f64_of_int 3, f64_of_int 4]" 0 1]
  by (simp add: request_def)

text \<open>
  C10. \<open>dot_cpp\<close> is deterministic: two calls whose first arrays hold the same elements and
  whose second arrays hold the same elements, wherever the arrays lie and whatever else the
  memory holds, have the same outcome, the same double or the same error.
\<close>

theorem dot_cpp_deterministic:
  "h a = h' a' \<Longrightarrow> h b = h' b' \<Longrightarrow> fst (dot_cpp h a b) = fst (dot_cpp h' a' b')"
proof -
  assume eq: "h a = h' a'" "h b = h' b'"
  show ?thesis
  proof (cases "length (h a) = length (h b)")
    case True
    with eq show ?thesis by (simp add: dot_cpp_equal_length)
  next
    case False
    with eq show ?thesis by (simp add: dot_cpp_different_length)
  qed
qed

theorem dot_cpp_deterministic_witness:
  "heap_of [f64_of_int 1, NaN] [f64_of_int 3, f64_of_int 4] 0 =
     heap_of [f64_of_int 3, f64_of_int 4] [f64_of_int 1, NaN] 1
   \<and> heap_of [f64_of_int 1, NaN] [f64_of_int 3, f64_of_int 4] 1 =
     heap_of [f64_of_int 3, f64_of_int 4] [f64_of_int 1, NaN] 0
   \<and> fst (dot_cpp (heap_of [f64_of_int 1, NaN] [f64_of_int 3, f64_of_int 4]) 0 1) =
     fst (dot_cpp (heap_of [f64_of_int 3, f64_of_int 4] [f64_of_int 1, NaN]) 1 0)"
  using dot_cpp_deterministic
    [of "heap_of [f64_of_int 1, NaN] [f64_of_int 3, f64_of_int 4]" 0
        "heap_of [f64_of_int 3, f64_of_int 4] [f64_of_int 1, NaN]" 1 1 0]
  by simp

end
